theory Spec2Isabelle
  imports Main "HOL-Library.Word"
begin

section \<open>Lesson 20, the smart doorbell: the sketch as a state transformer\<close>

text \<open>
  The sketch keeps its state in module-level variables and talks to five devices: the
  button pin, the camera, the PDM microphone, the SD card and the BLE characteristic,
  plus the web server.  The model below puts the variables and what the sketch can
  observe of the devices into one record, \<open>sys\<close>, and turns every function of the
  sketch into a function on that record.  Whatever a device answers (a pin level, a
  \<open>millis()\<close> reading, whether a file opened, whether a frame was delivered) is an
  input of the function that asks for it; each call site of \<open>millis()\<close> has an input of
  its own.  \<open>Serial\<close> output and the LED are written but never read back and are left
  out.
\<close>

subsection \<open>Machine types and configuration\<close>

type_synonym u32 = "32 word"  \<comment> \<open>\<open>unsigned long\<close>: arithmetic wraps at \<open>2 ^ 32\<close>\<close>
type_synonym i32 = "32 word"  \<comment> \<open>\<open>int\<close>: read through \<open>sint\<close>, compared with \<open><s\<close>\<close>

text \<open>
  Overflow of an \<open>int\<close> is undefined in C++.  The word wraps; the results about ids
  are stated for counters that stay below \<open>2 ^ 31\<close>, where the two agree.
\<close>

definition COOLDOWN_MS :: u32 where
  "COOLDOWN_MS = 3000"

definition AUDIO_DURATION_MS :: u32 where
  "AUDIO_DURATION_MS = 2000"

definition DEBOUNCE_MS :: u32 where
  "DEBOUNCE_MS = 50"

definition MAX_RING_HISTORY :: nat where
  "MAX_RING_HISTORY = 50"

subsection \<open>Arduino \<open>String\<close> and \<open>printf\<close> conversions\<close>

definition startsWith :: "string \<Rightarrow> string \<Rightarrow> bool" where
  "startsWith s p = (length p \<le> length s \<and> take (length p) s = p)"

definition endsWith :: "string \<Rightarrow> string \<Rightarrow> bool" where
  "endsWith s p = (length p \<le> length s \<and> drop (length s - length p) s = p)"

definition substring :: "string \<Rightarrow> nat \<Rightarrow> nat \<Rightarrow> string" where
  \<comment> \<open>\<open>String::substring(left, right)\<close>: swaps the bounds when out of order, clips
      \<open>right\<close> to the length, and is empty when \<open>left\<close> is past the end.\<close>
  "substring s left right =
     (let l = min left right; r = max left right
      in if length s \<le> l then [] else take (min r (length s) - l) (drop l s))"

definition isspace :: "char \<Rightarrow> bool" where
  "isspace c = (c \<in> set [CHR '' '', CHR 0x09, CHR 0x0A, CHR 0x0B, CHR 0x0C, CHR 0x0D])"

definition isdigit :: "char \<Rightarrow> bool" where
  "isdigit c = (c \<in> set ''0123456789'')"

definition digit_val :: "char \<Rightarrow> int" where
  "digit_val c = int (of_char c) - 48"

fun leading_digits :: "string \<Rightarrow> int \<Rightarrow> int" where
  "leading_digits [] acc = acc"
| "leading_digits (c # cs) acc =
     (if isdigit c then leading_digits cs (10 * acc + digit_val c) else acc)"

definition atol :: "string \<Rightarrow> int" where
  \<comment> \<open>\<open>strtol(s, NULL, 10)\<close> before clamping: white space, one optional sign, then the
      digits up to the first other character.\<close>
  "atol s =
     (case dropWhile isspace s of
        [] \<Rightarrow> 0
      | c # cs \<Rightarrow>
          if c = CHR ''-'' then - leading_digits cs 0
          else if c = CHR ''+'' then leading_digits cs 0
          else leading_digits (c # cs) 0)"

definition toInt :: "string \<Rightarrow> i32" where
  \<comment> \<open>\<open>String::toInt()\<close> is \<open>atol\<close>; a value out of range of \<open>long\<close> is clamped.\<close>
  "toInt s = word_of_int (max (- (2 ^ 31)) (min (2 ^ 31 - 1) (atol s)))"

definition digit_char :: "nat \<Rightarrow> char" where
  "digit_char n = ''0123456789'' ! n"

fun dec :: "nat \<Rightarrow> string" where
  "dec n = (if n < 10 then [digit_char n] else dec (n div 10) @ [digit_char (n mod 10)])"

declare dec.simps [simp del]

definition String_int :: "int \<Rightarrow> string" where
  \<comment> \<open>\<open>String(n)\<close> and \<open>%d\<close>, \<open>%lu\<close>: decimal, with a sign when negative.\<close>
  "String_int i = (if i < 0 then CHR ''-'' # dec (nat (- i)) else dec (nat i))"

definition fmt_04d :: "int \<Rightarrow> string" where
  \<comment> \<open>\<open>%04d\<close>: zero-padded to four characters, the sign counted in the width.\<close>
  "fmt_04d i =
     (if i < 0
      then CHR ''-'' # replicate (3 - length (dec (nat (- i)))) CHR ''0'' @ dec (nat (- i))
      else replicate (4 - length (dec (nat i))) CHR ''0'' @ dec (nat i))"

definition photo_name :: "i32 \<Rightarrow> string" where
  \<comment> \<open>\<open>snprintf(filename, 40, "/doorbell/ring_%04d.jpg", ringId)\<close>\<close>
  "photo_name ringId = take 39 (''/doorbell/ring_'' @ fmt_04d (sint ringId) @ ''.jpg'')"

definition audio_name :: "i32 \<Rightarrow> string" where
  \<comment> \<open>\<open>snprintf(filename, 40, "/doorbell/ring_%04d.raw", ringId)\<close>\<close>
  "audio_name ringId = take 39 (''/doorbell/ring_'' @ fmt_04d (sint ringId) @ ''.raw'')"

subsection \<open>The state\<close>

datatype State = STATE_IDLE | STATE_CAPTURING | STATE_NOTIFYING | STATE_COOLDOWN

record RingEvent =
  id' :: i32
  timestamp :: u32
  filename :: string

text \<open>
  A reply of the web server, as the sketch produces it.  The dashboard page is built from
  fixed markup and the values between it.  \<open>Lit k\<close> stands for the \<open>k\<close>-th piece of
  fixed markup of \<open>handleRoot\<close>, numbered as the pieces first appear in the source:
  0 to 4 are the first five raw literals, 5 is the notice shown when there are no rings,
  6 to 15 are the tags of a history entry, and 16 is the last raw literal.  The text of
  the markup plays no part here.
\<close>

datatype frag = Lit nat | Txt string

datatype http_out =
  Send nat string "frag list"     \<comment> \<open>\<open>server.send(code, type, body)\<close>\<close>
| StreamFile string string        \<comment> \<open>\<open>server.streamFile(file, type)\<close>: content, type\<close>
| ClientWrite string              \<comment> \<open>\<open>client.print\<close> and \<open>client.write\<close>\<close>

record sys =
  currentState :: State
  stateEnteredAt :: u32
  bleDeviceConnected :: bool
  bleOldDeviceConnected :: bool
  ringCount :: i32
  lastRingTime :: u32
  lastPhotoFile :: string
  lastButtonPress :: u32
  lastButtonState :: bool          \<comment> \<open>\<open>True\<close> is \<open>HIGH\<close>, the released level\<close>
  sdAvailable :: bool
  wifiAvailable :: bool
  cameraAvailable :: bool
  ringHistory :: "RingEvent list"  \<comment> \<open>the array of \<open>MAX_RING_HISTORY\<close> slots\<close>
  ringHistoryCount :: nat          \<comment> \<open>an index: starts at 0 and is only incremented\<close>
  sd_files :: "(string \<times> string) list"  \<comment> \<open>the card: path and content of each file\<close>
  characteristic :: string         \<comment> \<open>the value of \<open>pCharacteristic\<close>\<close>
  notified :: "string list"        \<comment> \<open>the \<open>notify()\<close> calls made, oldest first\<close>
  adv_starts :: nat                \<comment> \<open>the \<open>startAdvertising()\<close> calls made\<close>
  sent :: "http_out list"          \<comment> \<open>what the handlers wrote, oldest first\<close>
  fb_held :: nat                   \<comment> \<open>frame buffers taken and not yet returned\<close>
  fb_taken :: nat                  \<comment> \<open>frames the camera has delivered to the loop so far\<close>

subsection \<open>The card\<close>

text \<open>
  \<open>SD.open(path, FILE_WRITE)\<close> creates the file or truncates it (mode \<open>"w"\<close> on this
  board); the content written then replaces what was there.  A write to an open file is
  taken to be complete.  The card holds plain files; \<open>/doorbell\<close> has no
  subdirectories.
\<close>

fun put_file :: "string \<Rightarrow> string \<Rightarrow> (string \<times> string) list \<Rightarrow> (string \<times> string) list" where
  "put_file p c [] = [(p, c)]"
| "put_file p c ((q, d) # fs) = (if q = p then (p, c) # fs else (q, d) # put_file p c fs)"

definition sd_exists :: "string \<Rightarrow> (string \<times> string) list \<Rightarrow> bool" where
  "sd_exists p fs = (map_of fs p \<noteq> None)"

definition dir_names :: "(string \<times> string) list \<Rightarrow> string list" where
  \<comment> \<open>What \<open>openNextFile()\<close> and \<open>name()\<close> yield for \<open>/doorbell\<close>: the names of its
      entries, without the directory.\<close>
  "dir_names fs = map (drop 10) (filter (\<lambda>p. startsWith p ''/doorbell/'') (map fst fs))"

subsection \<open>Button handling\<close>

record poll_in =
  pin :: bool          \<comment> \<open>\<open>digitalRead(BUTTON_PIN)\<close>, \<open>True\<close> is \<open>HIGH\<close>\<close>
  t_debounce :: u32    \<comment> \<open>\<open>millis()\<close> in the debounce test\<close>
  t_press :: u32       \<comment> \<open>\<open>millis()\<close> stored as the time of the press\<close>

definition isButtonPressed :: "poll_in \<Rightarrow> sys \<Rightarrow> bool \<times> sys" where
  "isButtonPressed p w =
     (let currentButtonState = pin p in
      if lastButtonState w \<and> \<not> currentButtonState
         \<and> DEBOUNCE_MS < t_debounce p - lastButtonPress w
      then (True, w\<lparr>lastButtonPress := t_press p, lastButtonState := currentButtonState\<rparr>)
      else (False, w\<lparr>lastButtonState := currentButtonState\<rparr>))"

fun polls :: "poll_in list \<Rightarrow> sys \<Rightarrow> bool list \<times> sys" where
  "polls [] w = ([], w)"
| "polls (p # ps) w =
     (let (r, w1) = isButtonPressed p w; (rs, w2) = polls ps w1 in (r # rs, w2))"

subsection \<open>Camera and microphone\<close>

record photo_in =
  fb :: "string option"   \<comment> \<open>\<open>esp_camera_fb_get()\<close>: the frame, \<open>None\<close> for \<open>NULL\<close>\<close>
  jpg_open :: bool        \<comment> \<open>whether \<open>SD.open(filename, FILE_WRITE)\<close> gave a file\<close>

definition capturePhoto :: "photo_in \<Rightarrow> i32 \<Rightarrow> sys \<Rightarrow> string \<times> sys" where
  "capturePhoto p ringId w =
     (case fb p of
        None \<Rightarrow> ([], w)
      | Some buf \<Rightarrow>
          let w1 = w\<lparr>fb_held := fb_held w + 1, fb_taken := fb_taken w + 1\<rparr>;
              filename = photo_name ringId;
              w2 = (if sdAvailable w1
                    then (if jpg_open p
                          then w1\<lparr>sd_files := put_file filename buf (sd_files w1)\<rparr>
                          else w1)
                    else w1)
          in (filename, w2\<lparr>fb_held := fb_held w2 - 1\<rparr>))"

text \<open>
  The sampling loop of \<open>recordAudio\<close> runs while \<open>millis() - startTime\<close> is below
  \<open>AUDIO_DURATION_MS\<close>.  Its input is the list of its rounds: the \<open>millis()\<close> reading of
  the loop test and, for the body, what \<open>i2s_read\<close> delivered (\<open>None\<close> for an error
  code).  When the readings end before the deadline is reached the loop has not
  returned: the result is \<open>None\<close>.
\<close>

fun sample_loop :: "u32 \<Rightarrow> (u32 \<times> string option) list \<Rightarrow> string \<Rightarrow> string option" where
  "sample_loop startTime [] clip = None"
| "sample_loop startTime ((now, r) # rest) clip =
     (if now - startTime < AUDIO_DURATION_MS
      then sample_loop startTime rest
             (case r of None \<Rightarrow> clip | Some bytes \<Rightarrow> if 0 < length bytes then clip @ bytes else clip)
      else Some clip)"

record audio_in =
  raw_open :: bool        \<comment> \<open>whether \<open>SD.open(filename, FILE_WRITE)\<close> gave a file\<close>
  t_start :: u32          \<comment> \<open>\<open>millis()\<close> stored as \<open>startTime\<close>\<close>
  rounds :: "(u32 \<times> string option) list"

definition recordAudio :: "audio_in \<Rightarrow> i32 \<Rightarrow> sys \<Rightarrow> (bool \<times> sys) option" where
  "recordAudio a ringId w =
     (let filename = audio_name ringId in
      if \<not> sdAvailable w then Some (False, w)
      else if \<not> raw_open a then Some (False, w)
      else (case sample_loop (t_start a) (rounds a) [] of
              None \<Rightarrow> None
            | Some clip \<Rightarrow> Some (True, w\<lparr>sd_files := put_file filename clip (sd_files w)\<rparr>)))"

subsection \<open>BLE\<close>

definition onConnect :: "sys \<Rightarrow> sys" where
  "onConnect w = w\<lparr>bleDeviceConnected := True\<rparr>"

definition onDisconnect :: "sys \<Rightarrow> sys" where
  "onDisconnect w = w\<lparr>bleDeviceConnected := False\<rparr>"

definition initBLE :: "sys \<Rightarrow> sys" where
  "initBLE w = w\<lparr>characteristic := ''Ready'', adv_starts := adv_starts w + 1\<rparr>"

definition sendBLENotification :: "u32 \<Rightarrow> i32 \<Rightarrow> sys \<Rightarrow> sys" where
  \<comment> \<open>The first argument is the \<open>millis()\<close> reading that goes into the message.\<close>
  "sendBLENotification now ringId w =
     (if bleDeviceConnected w
      then (let message = ''Ring #'' @ String_int (sint ringId) @ '' at ''
                          @ String_int (uint (now div 1000)) @ ''s''
            in w\<lparr>characteristic := message, notified := notified w @ [message]\<rparr>)
      else w)"

subsection \<open>SD card functions\<close>

record sd_in =
  sd_begin :: bool        \<comment> \<open>\<open>SD.begin(SD_CS)\<close>\<close>
  dir_open :: bool        \<comment> \<open>whether \<open>SD.open("/doorbell")\<close> gave a directory\<close>

definition scan_entry :: "string \<Rightarrow> i32 \<Rightarrow> i32" where
  \<comment> \<open>One round of the directory scan of \<open>initSD\<close>, on \<open>ringCount\<close>.\<close>
  "scan_entry name count =
     (if startsWith name ''ring_'' \<and> endsWith name ''.jpg''
      then (let num = toInt (substring name 5 9) in if count <s num then num else count)
      else count)"

definition initSD :: "sd_in \<Rightarrow> sys \<Rightarrow> bool \<times> sys" where
  "initSD b w =
     (if sd_begin b
      then (True, if dir_open b
                  then w\<lparr>ringCount := fold scan_entry (dir_names (sd_files w)) (ringCount w)\<rparr>
                  else w)
      else (False, w))"

definition log_row :: "i32 \<Rightarrow> u32 \<Rightarrow> string" where
  \<comment> \<open>\<open>printf("%d,%lu,ring_%04d\n", ringId, millis(), ringId)\<close>\<close>
  "log_row ringId now =
     String_int (sint ringId) @ '','' @ String_int (uint now) @ '',ring_''
     @ fmt_04d (sint ringId) @ [CHR 0x0A]"

definition logRingEvent :: "bool \<Rightarrow> u32 \<Rightarrow> i32 \<Rightarrow> sys \<Rightarrow> sys" where
  \<comment> \<open>The first argument: whether \<open>SD.open("/doorbell/log.csv", FILE_APPEND)\<close> gave a
      file; the second: the \<open>millis()\<close> reading of the row.\<close>
  "logRingEvent opened now ringId w =
     (if \<not> sdAvailable w then w
      else if opened
      then (let old = (case map_of (sd_files w) ''/doorbell/log.csv'' of
                         None \<Rightarrow> [] | Some c \<Rightarrow> c);
                header = (if length old = 0
                          then ''id,timestamp_ms,filename'' @ [CHR 0x0D, CHR 0x0A] else [])
            in w\<lparr>sd_files :=
                   put_file ''/doorbell/log.csv'' (old @ header @ log_row ringId now) (sd_files w)\<rparr>)
      else w)"

subsection \<open>State machine actions\<close>

function shift_down :: "nat \<Rightarrow> RingEvent list \<Rightarrow> RingEvent list" where
  \<comment> \<open>\<open>for (i = 0; i < MAX_RING_HISTORY - 1; i++) ringHistory[i] = ringHistory[i + 1]\<close>\<close>
  "shift_down i h =
     (if i < MAX_RING_HISTORY - 1 then shift_down (i + 1) (h[i := h ! (i + 1)]) else h)"
  by pat_completeness auto
termination
  by (relation "measure (\<lambda>(i, h). MAX_RING_HISTORY - 1 - i)") auto

declare shift_down.simps [simp del]

record capture_in =
  photo :: photo_in
  audio :: audio_in
  t_hist :: u32           \<comment> \<open>\<open>millis()\<close> stored as the entry's time\<close>

definition set_entry :: "nat \<Rightarrow> i32 \<Rightarrow> u32 \<Rightarrow> string \<Rightarrow> RingEvent list \<Rightarrow> RingEvent list" where
  \<comment> \<open>The three assignments to the fields of \<open>ringHistory[k]\<close>.\<close>
  "set_entry k ringId now photoFile h =
     h[k := (h ! k)\<lparr>id' := ringId, timestamp := now, filename := photoFile\<rparr>]"

definition doCapture :: "capture_in \<Rightarrow> sys \<Rightarrow> sys option" where
  "doCapture c w =
     (let w1 = w\<lparr>ringCount := ringCount w + 1\<rparr>;
          currentRingId = ringCount w1;
          (photoFile, w2) = capturePhoto (photo c) currentRingId w1;
          w3 = (if 0 < length photoFile then w2\<lparr>lastPhotoFile := photoFile\<rparr> else w2)
      in case recordAudio (audio c) currentRingId w3 of
           None \<Rightarrow> None
         | Some (recorded, w4) \<Rightarrow>
             Some (if ringHistoryCount w4 < MAX_RING_HISTORY
                   then w4\<lparr>ringHistory :=
                              set_entry (ringHistoryCount w4) currentRingId (t_hist c) photoFile
                                (ringHistory w4),
                            ringHistoryCount := ringHistoryCount w4 + 1\<rparr>
                   else w4\<lparr>ringHistory :=
                              set_entry (MAX_RING_HISTORY - 1) currentRingId (t_hist c) photoFile
                                (shift_down 0 (ringHistory w4))\<rparr>))"

record notify_in =
  log_open :: bool        \<comment> \<open>whether the log file opened for appending\<close>
  t_log :: u32            \<comment> \<open>\<open>millis()\<close> in the log row\<close>
  t_ble :: u32            \<comment> \<open>\<open>millis()\<close> in the BLE message\<close>

definition doNotify :: "notify_in \<Rightarrow> sys \<Rightarrow> sys" where
  "doNotify n w =
     (let w1 = logRingEvent (log_open n) (t_log n) (ringCount w) w
      in sendBLENotification (t_ble n) (ringCount w1) w1)"

subsection \<open>Web server handlers\<close>

datatype request =
  GET_root                   \<comment> \<open>\<open>/\<close>\<close>
| GET_photo "string option"  \<comment> \<open>\<open>/photo\<close>, with the \<open>id\<close> argument when it is there\<close>
| GET_stream                 \<comment> \<open>\<open>/stream\<close>\<close>
| GET_status                 \<comment> \<open>\<open>/status\<close>\<close>
| GET_other                  \<comment> \<open>any other path: the library answers, no handler runs\<close>

record web_in =
  request :: "request option"  \<comment> \<open>the request \<open>handleClient()\<close> finds waiting, if any\<close>
  t_page :: u32                \<comment> \<open>\<open>millis()\<close> read by the handler\<close>
  free_heap :: u32             \<comment> \<open>\<open>ESP.getFreeHeap()\<close>\<close>
  photo_open :: bool           \<comment> \<open>whether \<open>SD.open(filename)\<close> gave a file\<close>
  frames :: "(bool \<times> string option) list"
    \<comment> \<open>the rounds of the stream loop: \<open>client.connected()\<close>, then the frame\<close>

definition uptime_text :: "u32 \<Rightarrow> string" where
  "uptime_text now =
     (let upSec = now div 1000 in
      if 3600 < upSec
      then String_int (uint (upSec div 3600)) @ ''h ''
           @ String_int (uint ((upSec mod 3600) div 60)) @ ''m''
      else if 60 < upSec
      then String_int (uint (upSec div 60)) @ ''m '' @ String_int (uint (upSec mod 60)) @ ''s''
      else String_int (uint upSec) @ ''s'')"

definition history_item :: "RingEvent \<Rightarrow> frag list" where
  "history_item e =
     [Lit 6, Txt (String_int (sint (id' e))), Lit 7,
      Lit 8, Txt (String_int (sint (id' e))), Lit 9,
      Lit 10,
      Lit 11,
      Lit 12, Txt (String_int (uint (timestamp e div 1000))), Lit 13,
      Lit 12, Txt (filename e), Lit 9,
      Lit 9,
      Lit 14, Txt (String_int (sint (id' e))), Lit 15,
      Lit 9]"

definition handleRoot :: "web_in \<Rightarrow> sys \<Rightarrow> sys" where
  "handleRoot i w =
     (let html =
            [Lit 0, Txt (String_int (sint (ringCount w))),
             Lit 1, Txt (if bleDeviceConnected w then ''Connected'' else ''Waiting''),
             Lit 2, Txt (if sdAvailable w then ''OK'' else ''N/A''),
             Lit 3, Txt (uptime_text (t_page i)),
             Lit 4]
            @ (if ringHistoryCount w = 0 then [Lit 5]
               else concat (map history_item (rev (take (ringHistoryCount w) (ringHistory w)))))
            @ [Lit 16]
      in w\<lparr>sent := sent w @ [Send 200 ''text/html'' html]\<rparr>)"

definition handlePhoto :: "string option \<Rightarrow> web_in \<Rightarrow> sys \<Rightarrow> sys" where
  "handlePhoto arg i w =
     (case arg of
        None \<Rightarrow> w\<lparr>sent := sent w @ [Send 400 ''text/plain'' [Txt ''Missing 'id' parameter'']]\<rparr>
      | Some a \<Rightarrow>
          let filename = photo_name (toInt a) in
          if \<not> sdAvailable w \<or> \<not> sd_exists filename (sd_files w)
          then w\<lparr>sent := sent w @ [Send 404 ''text/plain'' [Txt ''Photo not found'']]\<rparr>
          else if \<not> photo_open i
          then w\<lparr>sent := sent w @ [Send 500 ''text/plain'' [Txt ''Failed to open photo'']]\<rparr>
          else w\<lparr>sent := sent w
                   @ [StreamFile (the (map_of (sd_files w) filename)) ''image/jpeg'']\<rparr>)"

text \<open>
  The stream loop runs while the client is connected and frames arrive.  As for the
  sampling loop, its rounds are an input, and \<open>None\<close> says that the handler has not
  returned: the client is still connected when the rounds end.
\<close>

fun stream_loop :: "(bool \<times> string option) list \<Rightarrow> sys \<Rightarrow> sys option" where
  "stream_loop [] w = None"
| "stream_loop ((connected, f) # rest) w =
     (if \<not> connected then Some w
      else (case f of
              None \<Rightarrow> Some w
            | Some buf \<Rightarrow>
                let w1 = w\<lparr>fb_held := fb_held w + 1, fb_taken := fb_taken w + 1\<rparr>;
                    part = ''--frame'' @ [CHR 0x0D, CHR 0x0A]
                           @ ''Content-Type: image/jpeg'' @ [CHR 0x0D, CHR 0x0A]
                           @ ''Content-Length: '' @ String_int (int (length buf))
                           @ [CHR 0x0D, CHR 0x0A, CHR 0x0D, CHR 0x0A];
                    w2 = w1\<lparr>sent := sent w1
                              @ [ClientWrite part, ClientWrite buf,
                                 ClientWrite [CHR 0x0D, CHR 0x0A]]\<rparr>
                in stream_loop rest (w2\<lparr>fb_held := fb_held w2 - 1\<rparr>)))"

definition handleStream :: "web_in \<Rightarrow> sys \<Rightarrow> sys option" where
  "handleStream i w =
     (let header = ''HTTP/1.1 200 OK'' @ [CHR 0x0D, CHR 0x0A]
                   @ ''Content-Type: multipart/x-mixed-replace;boundary=frame''
                   @ [CHR 0x0D, CHR 0x0A]
                   @ ''Access-Control-Allow-Origin: *''
                   @ [CHR 0x0D, CHR 0x0A, CHR 0x0D, CHR 0x0A]
      in stream_loop (frames i) (w\<lparr>sent := sent w @ [ClientWrite header]\<rparr>))"

definition quoted :: "string \<Rightarrow> string" where
  "quoted s = [CHR 0x22] @ s @ [CHR 0x22]"

definition handleStatus :: "web_in \<Rightarrow> sys \<Rightarrow> sys" where
  "handleStatus i w =
     (let json = ''{''
            @ quoted ''rings'' @ '':'' @ String_int (sint (ringCount w)) @ '',''
            @ quoted ''ble'' @ '':''
            @ quoted (if bleDeviceConnected w then ''connected'' else ''disconnected'') @ '',''
            @ quoted ''sd'' @ '':'' @ (if sdAvailable w then ''true'' else ''false'') @ '',''
            @ quoted ''uptime'' @ '':'' @ String_int (uint (t_page i div 1000)) @ '',''
            @ quoted ''freeHeap'' @ '':'' @ String_int (uint (free_heap i)) @ '',''
            @ quoted ''state'' @ '':''
            @ quoted (if currentState w = STATE_IDLE then ''idle''
                      else if currentState w = STATE_CAPTURING then ''capturing''
                      else if currentState w = STATE_NOTIFYING then ''notifying''
                      else ''cooldown'')
            @ ''}''
      in w\<lparr>sent := sent w @ [Send 200 ''application/json'' [Txt json]]\<rparr>)"

definition handleClient :: "web_in \<Rightarrow> sys \<Rightarrow> sys option" where
  \<comment> \<open>\<open>server.handleClient()\<close> with the routes registered at start-up.\<close>
  "handleClient i w =
     (case request i of
        None \<Rightarrow> Some w
      | Some GET_root \<Rightarrow> Some (handleRoot i w)
      | Some (GET_photo arg) \<Rightarrow> Some (handlePhoto arg i w)
      | Some GET_stream \<Rightarrow> handleStream i w
      | Some GET_status \<Rightarrow> Some (handleStatus i w)
      | Some GET_other \<Rightarrow> Some w)"

subsection \<open>Setup\<close>

definition power_on :: "(string \<times> string) list \<Rightarrow> sys" where
  \<comment> \<open>The initialisers of the variables, on a card with the given files.\<close>
  "power_on files =
     \<lparr>currentState = STATE_IDLE, stateEnteredAt = 0,
      bleDeviceConnected = False, bleOldDeviceConnected = False,
      ringCount = 0, lastRingTime = 0, lastPhotoFile = [],
      lastButtonPress = 0, lastButtonState = True,
      sdAvailable = False, wifiAvailable = False, cameraAvailable = False,
      ringHistory = replicate MAX_RING_HISTORY \<lparr>id' = 0, timestamp = 0, filename = []\<rparr>,
      ringHistoryCount = 0,
      sd_files = files, characteristic = [], notified = [], adv_starts = 0,
      sent = [], fb_held = 0, fb_taken = 0\<rparr>"

record boot_in =
  cam_ok :: bool          \<comment> \<open>what \<open>initCamera()\<close> returned\<close>
  sd :: sd_in
  wifi_ok :: bool         \<comment> \<open>whether the connection came up within the 40 attempts\<close>
  t_setup :: u32          \<comment> \<open>\<open>millis()\<close> at the end of setup\<close>

definition setup_sketch :: "boot_in \<Rightarrow> sys \<Rightarrow> sys" where
  "setup_sketch b w =
     (let w1 = w\<lparr>cameraAvailable := cam_ok b\<rparr>;
          (mounted, w2) = initSD (sd b) w1;
          w3 = w2\<lparr>sdAvailable := mounted\<rparr>;
          w4 = initBLE w3;
          w5 = (if wifi_ok b then w4\<lparr>wifiAvailable := True\<rparr> else w4)
      in w5\<lparr>currentState := STATE_IDLE, stateEnteredAt := t_setup b\<rparr>)"

subsection \<open>Main loop\<close>

record tick =
  web :: web_in
  btn :: poll_in
  cap :: capture_in
  ntf :: notify_in
  t_cool :: u32           \<comment> \<open>\<open>millis()\<close> in the cooldown test\<close>
  t_enter :: u32          \<comment> \<open>\<open>millis()\<close> stored in \<open>stateEnteredAt\<close> on a transition\<close>

definition service :: "tick \<Rightarrow> sys \<Rightarrow> sys option" where
  \<comment> \<open>\<open>if (wifiAvailable) server.handleClient();\<close>\<close>
  "service t w = (if wifiAvailable w then handleClient (web t) w else Some w)"

definition readvertise :: "sys \<Rightarrow> sys" where
  \<comment> \<open>The two tests on \<open>bleDeviceConnected\<close> and \<open>bleOldDeviceConnected\<close>.\<close>
  "readvertise w =
     (let w1 = (if \<not> bleDeviceConnected w \<and> bleOldDeviceConnected w
                then w\<lparr>adv_starts := adv_starts w + 1,
                       bleOldDeviceConnected := bleDeviceConnected w\<rparr>
                else w)
      in if bleDeviceConnected w1 \<and> \<not> bleOldDeviceConnected w1
         then w1\<lparr>bleOldDeviceConnected := bleDeviceConnected w1\<rparr>
         else w1)"

definition state_machine :: "tick \<Rightarrow> sys \<Rightarrow> sys option" where
  \<comment> \<open>\<open>switch (currentState)\<close>\<close>
  "state_machine t w =
     (case currentState w of
        STATE_IDLE \<Rightarrow>
          (let (pressed, w1) = isButtonPressed (btn t) w
           in Some (if pressed
                    then w1\<lparr>currentState := STATE_CAPTURING, stateEnteredAt := t_enter t\<rparr>
                    else w1))
      | STATE_CAPTURING \<Rightarrow>
          (case doCapture (cap t) w of
             None \<Rightarrow> None
           | Some w1 \<Rightarrow>
               Some (w1\<lparr>currentState := STATE_NOTIFYING, stateEnteredAt := t_enter t\<rparr>))
      | STATE_NOTIFYING \<Rightarrow>
          Some ((doNotify (ntf t) w)
                  \<lparr>currentState := STATE_COOLDOWN, stateEnteredAt := t_enter t\<rparr>)
      | STATE_COOLDOWN \<Rightarrow>
          Some (if COOLDOWN_MS \<le> t_cool t - stateEnteredAt w
                then w\<lparr>currentState := STATE_IDLE, stateEnteredAt := t_enter t\<rparr>
                else w))"

definition loop :: "tick \<Rightarrow> sys \<Rightarrow> sys option" where
  \<comment> \<open>One round of \<open>loop()\<close>: the web server, the BLE bookkeeping, the state machine.\<close>
  "loop t w =
     (case service t w of
        None \<Rightarrow> None
      | Some w1 \<Rightarrow> state_machine t (readvertise w1))"

text \<open>
  A run of the device: rounds of \<open>loop\<close>, with the BLE callbacks between them.  The
  callbacks come from the radio stack; the model lets them in between two rounds only.
\<close>

datatype event = Tick tick | Connect | Disconnect

definition step :: "event \<Rightarrow> sys \<Rightarrow> sys option" where
  "step e w =
     (case e of Tick t \<Rightarrow> loop t w | Connect \<Rightarrow> Some (onConnect w)
      | Disconnect \<Rightarrow> Some (onDisconnect w))"

fun run :: "event list \<Rightarrow> sys \<Rightarrow> sys option" where
  "run [] w = Some w"
| "run (e # es) w = (case step e w of None \<Rightarrow> None | Some w1 \<Rightarrow> run es w1)"

subsection \<open>Sequences of captures, and the Events they make\<close>

definition new_event :: "capture_in \<Rightarrow> sys \<Rightarrow> RingEvent" where
  \<comment> \<open>The values \<open>doCapture\<close> writes into the entry it fills: the id it has just
      allocated, the time of the entry, and the name \<open>capturePhoto\<close> returned.\<close>
  "new_event c w =
     \<lparr>id' = ringCount w + 1, timestamp = t_hist c,
      filename = fst (capturePhoto (photo c) (ringCount w + 1)
                        (w\<lparr>ringCount := ringCount w + 1\<rparr>))\<rparr>"

fun captures :: "capture_in list \<Rightarrow> sys \<Rightarrow> sys option" where
  "captures [] w = Some w"
| "captures (c # cs) w = (case doCapture c w of None \<Rightarrow> None | Some w1 \<Rightarrow> captures cs w1)"

fun created :: "capture_in list \<Rightarrow> sys \<Rightarrow> RingEvent list" where
  "created [] w = []"
| "created (c # cs) w =
     new_event c w # (case doCapture c w of None \<Rightarrow> [] | Some w1 \<Rightarrow> created cs w1)"

definition history :: "sys \<Rightarrow> RingEvent list" where
  \<comment> \<open>The entries in use, oldest first: what the dashboard walks through.\<close>
  "history w = take (ringHistoryCount w) (ringHistory w)"

definition files_after_capture :: "capture_in \<Rightarrow> sys \<Rightarrow> (string \<times> string) list" where
  \<comment> \<open>The card after \<open>doCapture\<close>: the image when there is a frame and the file opens,
      then the clip when its file opens.\<close>
  "files_after_capture c w =
     (let ringId = ringCount w + 1;
          fs = (case fb (photo c) of
                  None \<Rightarrow> sd_files w
                | Some buf \<Rightarrow>
                    if sdAvailable w \<and> jpg_open (photo c)
                    then put_file (photo_name ringId) buf (sd_files w) else sd_files w)
      in if sdAvailable w \<and> raw_open (audio c)
         then put_file (audio_name ringId)
                (the (sample_loop (t_start (audio c)) (rounds (audio c)) [])) fs
         else fs)"

subsection \<open>Sample inputs\<close>

definition boot0 :: boot_in where
  "boot0 = \<lparr>cam_ok = True, sd = \<lparr>sd_begin = True, dir_open = True\<rparr>, wifi_ok = True,
            t_setup = 1000\<rparr>"

definition cap0 :: capture_in where
  \<comment> \<open>A capture in which everything works.\<close>
  "cap0 = \<lparr>photo = \<lparr>fb = Some ''jpeg'', jpg_open = True\<rparr>,
           audio = \<lparr>raw_open = True, t_start = 5000,
                    rounds = [(5000, Some ''pcm''), (7000, None)]\<rparr>,
           t_hist = 7010\<rparr>"

definition bounce :: "poll_in list" where
  \<comment> \<open>Five polls 20 ms apart on a bouncing contact: the level falls at 1000, 1040 and
      1080 ms.\<close>
  "bounce = [\<lparr>pin = False, t_debounce = 1000, t_press = 1000\<rparr>,
             \<lparr>pin = True, t_debounce = 1020, t_press = 1020\<rparr>,
             \<lparr>pin = False, t_debounce = 1040, t_press = 1040\<rparr>,
             \<lparr>pin = True, t_debounce = 1060, t_press = 1060\<rparr>,
             \<lparr>pin = False, t_debounce = 1080, t_press = 1080\<rparr>]"

definition card5 :: "(string \<times> string) list" where
  \<comment> \<open>A card on which rings 4 and 5 have been stored.\<close>
  "card5 = [(''/doorbell/ring_0004.jpg'', ''jpeg4''), (''/doorbell/ring_0004.raw'', ''pcm4''),
            (''/doorbell/ring_0005.jpg'', ''jpeg5''), (''/doorbell/ring_0005.raw'', ''pcm5''),
            (''/doorbell/log.csv'', ''id,timestamp_ms,filename'')]"

subsection \<open>Runs while an Event is in flight\<close>

fun busy_run :: "event list \<Rightarrow> sys \<Rightarrow> bool" where
  \<comment> \<open>Every event of the run finds the controller outside \<open>STATE_IDLE\<close>, and returns.\<close>
  "busy_run [] w = True"
| "busy_run (e # es) w =
     (currentState w \<noteq> STATE_IDLE
      \<and> (case step e w of None \<Rightarrow> False | Some w1 \<Rightarrow> busy_run es w1))"

definition set_btn :: "poll_in \<Rightarrow> event \<Rightarrow> event" where
  \<comment> \<open>The same event with another pin level and other clock readings at the button.\<close>
  "set_btn q e =
     (case e of Tick t \<Rightarrow> Tick (t\<lparr>btn := q\<rparr>) | Connect \<Rightarrow> Connect
      | Disconnect \<Rightarrow> Disconnect)"

definition round_at :: "bool \<Rightarrow> u32 \<Rightarrow> u32 \<Rightarrow> tick" where
  \<comment> \<open>A round of the loop that starts at \<open>now\<close> and ends at \<open>fin\<close>, with the given pin
      level, no web request waiting, and every device working.\<close>
  "round_at level now fin =
     \<lparr>web = \<lparr>request = None, t_page = now, free_heap = 100000, photo_open = True,
             frames = []\<rparr>,
      btn = \<lparr>pin = level, t_debounce = now, t_press = now\<rparr>,
      cap = \<lparr>photo = \<lparr>fb = Some ''jpeg'', jpg_open = True\<rparr>,
             audio = \<lparr>raw_open = True, t_start = now,
                      rounds = [(now, Some ''pcm''), (fin, None)]\<rparr>,
             t_hist = fin\<rparr>,
      ntf = \<lparr>log_open = True, t_log = now, t_ble = now\<rparr>,
      t_cool = now, t_enter = fin\<rparr>"


definition ringing :: sys where
  \<comment> \<open>The state in which the press at 10000 ms leaves the freshly started device.\<close>
  "ringing = (setup_sketch boot0 (power_on []))
               \<lparr>currentState := STATE_CAPTURING, stateEnteredAt := 10000,
                lastButtonPress := 10000, lastButtonState := False\<rparr>"

definition held_run :: "event list" where
  \<comment> \<open>The rest of that ring with the button held down all the time, and a phone
      connecting during the capture.\<close>
  "held_run = [Tick (round_at False 10010 12010), Connect,
               Tick (round_at False 12020 12020), Tick (round_at False 13000 13000)]"

definition released :: poll_in where
  "released = \<lparr>pin = True, t_debounce = 0, t_press = 0\<rparr>"

definition blind_round :: tick where
  \<comment> \<open>The capture round of that ring when the camera delivers no frame.\<close>
  "blind_round =
     (round_at False 10010 12010)
       \<lparr>cap := \<lparr>photo = \<lparr>fb = None, jpg_open = True\<rparr>,
                audio = \<lparr>raw_open = True, t_start = 10010,
                         rounds = [(10010, Some ''pcm''), (12010, None)]\<rparr>,
                t_hist = 12010\<rparr>\<rparr>"

definition unwritten_round :: tick where
  \<comment> \<open>The capture round of that ring when the camera delivers a frame and the image
      file cannot be opened on the card.\<close>
  "unwritten_round =
     (round_at False 10010 12010)
       \<lparr>cap := \<lparr>photo = \<lparr>fb = Some ''jpeg'', jpg_open = False\<rparr>,
                audio = \<lparr>raw_open = True, t_start = 10010,
                         rounds = [(10010, Some ''pcm''), (12010, None)]\<rparr>,
                t_hist = 12010\<rparr>\<rparr>"

definition blind_second :: tick where
  \<comment> \<open>The capture round of a second ring, from 20010 to 22010 ms, when the camera
      delivers no frame.\<close>
  "blind_second =
     (round_at False 20010 22010)
       \<lparr>cap := \<lparr>photo = \<lparr>fb = None, jpg_open = True\<rparr>,
                audio = \<lparr>raw_open = True, t_start = 20010,
                         rounds = [(20010, Some ''pcm2''), (22010, None)]\<rparr>,
                t_hist = 22010\<rparr>\<rparr>"

definition third_capture :: tick where
  \<comment> \<open>A capture round after a restart, from 30010 to 32010 ms, with everything working.\<close>
  "third_capture =
     (round_at False 30010 32010)
       \<lparr>cap := \<lparr>photo = \<lparr>fb = Some ''jpeg3'', jpg_open = True\<rparr>,
                audio = \<lparr>raw_open = True, t_start = 30010,
                         rounds = [(30010, Some ''pcm3''), (32010, None)]\<rparr>,
                t_hist = 32010\<rparr>\<rparr>"


definition status_request :: web_in where
  "status_request = \<lparr>request = Some GET_status, t_page = 11000, free_heap = 100000,
                      photo_open = True, frames = []\<rparr>"

definition stream_request :: web_in where
  \<comment> \<open>A viewer who gets two frames and then disconnects.\<close>
  "stream_request = \<lparr>request = Some GET_stream, t_page = 11000, free_heap = 100000,
                      photo_open = True,
                      frames = [(True, Some ''frame1''), (True, Some ''frame2''), (False, None)]\<rparr>"

section \<open>Lemmas about the parts of the sketch\<close>

subsection \<open>The history array\<close>

lemma shift_down_eq:
  "length h = MAX_RING_HISTORY \<Longrightarrow> i < MAX_RING_HISTORY \<Longrightarrow>
   shift_down i h = take i h @ drop (i + 1) h @ [last h]"
proof (induction i h rule: shift_down.induct)
  case (1 i h)
  show ?case
  proof (cases "i < MAX_RING_HISTORY - 1")
    case False
    with "1.prems" have i: "i = MAX_RING_HISTORY - 1" by simp
    have "h \<noteq> []" using "1.prems" by (auto simp: MAX_RING_HISTORY_def)
    then have "take (length h - 1) h @ [last h] = h"
      by (metis append_butlast_last_id butlast_conv_take)
    moreover have "shift_down i h = h"
      using False by (subst shift_down.simps) simp
    ultimately show ?thesis
      using i "1.prems" by simp
  next
    case True
    let ?h = "h[i := h ! (i + 1)]"
    have len: "length ?h = MAX_RING_HISTORY" using "1.prems" by simp
    have i1: "i + 1 < MAX_RING_HISTORY" using True by simp
    have IH: "shift_down (i + 1) ?h = take (i + 1) ?h @ drop (i + 1 + 1) ?h @ [last ?h]"
      using "1.IH" [OF True len i1] .
    have a: "take (i + 1) ?h = take i h @ [h ! (i + 1)]"
      using "1.prems" True by (simp add: take_Suc_conv_app_nth)
    have b: "drop (i + 1 + 1) ?h = drop (i + 2) h" by simp
    have c: "last ?h = last h"
      using "1.prems" True by (subst last_list_update) (auto simp: MAX_RING_HISTORY_def)
    have d: "h ! (i + 1) # drop (i + 2) h = drop (i + 1) h"
      using "1.prems" i1 by (simp add: Cons_nth_drop_Suc)
    have "shift_down i h = shift_down (i + 1) ?h"
      using True by (simp add: shift_down.simps [of i h])
    also have "\<dots> = take i h @ [h ! (i + 1)] @ drop (i + 2) h @ [last h]"
      using IH a b c by simp
    also have "\<dots> = take i h @ drop (i + 1) h @ [last h]"
      using d by (metis append_Cons append_Nil)
    finally show ?thesis .
  qed
qed

lemma shift_down_0:
  "length h = MAX_RING_HISTORY \<Longrightarrow> shift_down 0 h = tl h @ [last h]"
  using shift_down_eq [of h 0] by (simp add: MAX_RING_HISTORY_def drop_Suc)

lemma capturePhoto_frame:
  "ringHistory (snd (capturePhoto p i w)) = ringHistory w
   \<and> ringHistoryCount (snd (capturePhoto p i w)) = ringHistoryCount w
   \<and> ringCount (snd (capturePhoto p i w)) = ringCount w
   \<and> sdAvailable (snd (capturePhoto p i w)) = sdAvailable w"
  by (simp add: capturePhoto_def Let_def split: option.splits)

lemma recordAudio_frame:
  "recordAudio a i w = Some (r, w1) \<Longrightarrow>
   ringHistory w1 = ringHistory w \<and> ringHistoryCount w1 = ringHistoryCount w
   \<and> ringCount w1 = ringCount w"
  by (auto simp: recordAudio_def Let_def split: if_splits option.splits)

lemma entry_overwrite:
  "(e :: RingEvent)\<lparr>id' := a, timestamp := b, filename := c\<rparr>
   = \<lparr>id' = a, timestamp = b, filename = c\<rparr>"
  by (cases e) simp

lemma doCapture_history:
  assumes "doCapture c w = Some w1"
  shows "ringCount w1 = ringCount w + 1"
    and "ringHistoryCount w < MAX_RING_HISTORY \<Longrightarrow>
         ringHistory w1 = (ringHistory w)[ringHistoryCount w := new_event c w]
         \<and> ringHistoryCount w1 = ringHistoryCount w + 1"
    and "\<not> ringHistoryCount w < MAX_RING_HISTORY \<Longrightarrow>
         ringHistory w1 = (shift_down 0 (ringHistory w))[MAX_RING_HISTORY - 1 := new_event c w]
         \<and> ringHistoryCount w1 = ringHistoryCount w"
proof -
  let ?w1 = "w\<lparr>ringCount := ringCount w + 1\<rparr>"
  let ?id = "ringCount w + 1"
  obtain f w2 where cp: "capturePhoto (photo c) ?id ?w1 = (f, w2)"
    by (cases "capturePhoto (photo c) ?id ?w1")
  let ?w3 = "if 0 < length f then w2\<lparr>lastPhotoFile := f\<rparr> else w2"
  from capturePhoto_frame [of "photo c" ?id ?w1] cp
  have w3: "ringHistory ?w3 = ringHistory w" "ringHistoryCount ?w3 = ringHistoryCount w"
    "ringCount ?w3 = ringCount w + 1"
    by simp_all
  from assms cp obtain r w4 where ra: "recordAudio (audio c) ?id ?w3 = Some (r, w4)"
    by (auto simp: doCapture_def Let_def split: option.splits)
  from recordAudio_frame [OF ra] w3
  have w4: "ringHistory w4 = ringHistory w" "ringHistoryCount w4 = ringHistoryCount w"
    "ringCount w4 = ringCount w + 1"
    by simp_all
  have ne: "new_event c w = \<lparr>id' = ?id, timestamp = t_hist c, filename = f\<rparr>"
    using cp by (simp add: new_event_def)
  have res: "w1 = (if ringHistoryCount w4 < MAX_RING_HISTORY
                   then w4\<lparr>ringHistory :=
                              set_entry (ringHistoryCount w4) ?id (t_hist c) f (ringHistory w4),
                            ringHistoryCount := ringHistoryCount w4 + 1\<rparr>
                   else w4\<lparr>ringHistory :=
                              set_entry (MAX_RING_HISTORY - 1) ?id (t_hist c) f
                                (shift_down 0 (ringHistory w4))\<rparr>)"
    using assms cp ra by (auto simp: doCapture_def Let_def split: if_splits)
  show "ringCount w1 = ringCount w + 1"
    using res w4 by simp
  show "ringHistoryCount w < MAX_RING_HISTORY \<Longrightarrow>
         ringHistory w1 = (ringHistory w)[ringHistoryCount w := new_event c w]
         \<and> ringHistoryCount w1 = ringHistoryCount w + 1"
    using res w4 ne by (simp add: set_entry_def entry_overwrite)
  show "\<not> ringHistoryCount w < MAX_RING_HISTORY \<Longrightarrow>
         ringHistory w1 = (shift_down 0 (ringHistory w))[MAX_RING_HISTORY - 1 := new_event c w]
         \<and> ringHistoryCount w1 = ringHistoryCount w"
    using res w4 ne by (simp add: set_entry_def entry_overwrite)
qed


lemma doCapture_step:
  assumes "doCapture c w = Some w1" "length (ringHistory w) = MAX_RING_HISTORY"
    "ringHistoryCount w \<le> MAX_RING_HISTORY"
  shows "history w1 = drop (ringHistoryCount w + 1 - MAX_RING_HISTORY) (history w @ [new_event c w])"
    and "ringHistoryCount w1 = min (ringHistoryCount w + 1) MAX_RING_HISTORY"
    and "length (ringHistory w1) = MAX_RING_HISTORY"
proof -
  show "history w1 = drop (ringHistoryCount w + 1 - MAX_RING_HISTORY) (history w @ [new_event c w])"
  proof (cases "ringHistoryCount w < MAX_RING_HISTORY")
    case True
    from doCapture_history(2) [OF assms(1) True] assms(2) True show ?thesis
      by (simp add: history_def take_Suc_conv_app_nth)
  next
    case False
    with assms(3) have full: "ringHistoryCount w = MAX_RING_HISTORY" by simp
    have ne: "ringHistory w \<noteq> []" using assms(2) by (auto simp: MAX_RING_HISTORY_def)
    have "(tl (ringHistory w) @ [last (ringHistory w)])[MAX_RING_HISTORY - 1 := new_event c w]
          = tl (ringHistory w) @ [new_event c w]"
      using assms(2) by (simp add: list_update_append)
    with doCapture_history(3) [OF assms(1) False] assms(2) full ne show ?thesis
      by (simp add: history_def shift_down_0 drop_Suc MAX_RING_HISTORY_def)
  qed
  show "ringHistoryCount w1 = min (ringHistoryCount w + 1) MAX_RING_HISTORY"
    using doCapture_history(2,3) [OF assms(1)] assms(3)
    by (cases "ringHistoryCount w < MAX_RING_HISTORY") auto
  show "length (ringHistory w1) = MAX_RING_HISTORY"
    using doCapture_history(2,3) [OF assms(1)] assms(2)
    by (cases "ringHistoryCount w < MAX_RING_HISTORY") (auto simp: shift_down_0 MAX_RING_HISTORY_def)
qed

lemma captures_history:
  "captures cs w = Some w' \<Longrightarrow> length (ringHistory w) = MAX_RING_HISTORY \<Longrightarrow>
   ringHistoryCount w \<le> MAX_RING_HISTORY \<Longrightarrow>
   history w' = drop (ringHistoryCount w + length cs - MAX_RING_HISTORY) (history w @ created cs w)
   \<and> ringHistoryCount w' = min (ringHistoryCount w + length cs) MAX_RING_HISTORY
   \<and> length (ringHistory w') = MAX_RING_HISTORY"
proof (induction cs arbitrary: w)
  case Nil
  then show ?case by (simp add: history_def)
next
  case (Cons c cs)
  from Cons.prems(1) obtain w1 where d: "doCapture c w = Some w1" and r: "captures cs w1 = Some w'"
    by (auto split: option.splits)
  note st = doCapture_step [OF d Cons.prems(2,3)]
  have le1: "ringHistoryCount w1 \<le> MAX_RING_HISTORY" using st(2) by simp
  note IH = Cons.IH [OF r st(3) le1]
  have lenh: "length (history w) = ringHistoryCount w"
    using Cons.prems(2,3) by (simp add: history_def)
  have cr: "created (c # cs) w = new_event c w # created cs w1" using d by simp
  show ?case
  proof (cases "ringHistoryCount w < MAX_RING_HISTORY")
    case True
    then have "history w1 = history w @ [new_event c w]" using st(1) by simp
    moreover have "ringHistoryCount w1 = ringHistoryCount w + 1" using st(2) True by simp
    ultimately show ?thesis using IH cr by simp
  next
    case False
    with Cons.prems(3) have full: "ringHistoryCount w = MAX_RING_HISTORY" by simp
    then have h1: "history w1 = drop 1 (history w @ [new_event c w])" using st(1) by simp
    have c1: "ringHistoryCount w1 = MAX_RING_HISTORY" using st(2) full by simp
    have "history w \<noteq> []" using lenh full by (auto simp: MAX_RING_HISTORY_def)
    then obtain x xs where hx: "history w = x # xs" by (cases "history w") auto
    have "drop (length cs) (history w1 @ created cs w1)
               = drop (length cs + 1) (history w @ new_event c w # created cs w1)"
      using h1 by (simp add: hx)
    then show ?thesis using IH cr c1 full by simp
  qed
qed

lemma length_created:
  "captures cs w = Some w' \<Longrightarrow> length (created cs w) = length cs"
  by (induction cs arbitrary: w) (auto split: option.splits)

subsection \<open>Ids\<close>

lemma sint_succ:
  "sint (x :: 32 word) < 2 ^ 31 - 1 \<Longrightarrow> sint (x + 1) = sint x + 1"
proof -
  assume a: "sint x < 2 ^ 31 - 1"
  have lo: "- (2 ^ 31) \<le> sint x" using sint_ge [of x] by simp
  have "sint (x + 1) = signed_take_bit 31 (sint x + 1)"
    by (simp add: sint_word_ariths)
  also have "\<dots> = sint x + 1"
    using a lo by (simp add: signed_take_bit_int_eq_self)
  finally show ?thesis .
qed

lemma created_ids:
  "captures cs w = Some w' \<Longrightarrow> sint (ringCount w) + int (length cs) < 2 ^ 31 \<Longrightarrow>
   map (\<lambda>e. sint (id' e)) (created cs w)
     = map (\<lambda>k. sint (ringCount w) + 1 + int k) [0..<length cs]"
proof (induction cs arbitrary: w)
  case Nil
  then show ?case by simp
next
  case (Cons c cs)
  from Cons.prems(1) obtain w1 where d: "doCapture c w = Some w1" and r: "captures cs w1 = Some w'"
    by (auto split: option.splits)
  have rc: "ringCount w1 = ringCount w + 1" using doCapture_history(1) [OF d] .
  have s: "sint (ringCount w + 1) = sint (ringCount w) + 1"
    using Cons.prems(2) by (intro sint_succ) simp
  have "sint (ringCount w1) + int (length cs) < 2 ^ 31"
    using Cons.prems(2) rc s by simp
  from Cons.IH [OF r this]
  have "map (\<lambda>e. sint (id' e)) (created cs w1)
          = map (\<lambda>k. sint (ringCount w) + 1 + int (Suc k)) [0..<length cs]"
    using rc s by (simp add: algebra_simps)
  then show ?case
    using d s by (simp add: new_event_def upt_conv_Cons map_Suc_upt [symmetric] del: upt_Suc)
qed

lemma scan_entry_cases:
  "scan_entry name c = c \<or>
   (startsWith name ''ring_'' \<and> endsWith name ''.jpg'' \<and> c <s toInt (substring name 5 9)
    \<and> scan_entry name c = toInt (substring name 5 9))"
  by (simp add: scan_entry_def Let_def)

lemma scan_entry_mono: "sint c \<le> sint (scan_entry name c)"
  using scan_entry_cases [of name c] by (auto simp: word_sless_alt)

lemma fold_scan_mono: "sint c \<le> sint (fold scan_entry names c)"
proof (induction names arbitrary: c)
  case Nil
  show ?case by simp
next
  case (Cons n ns)
  have "sint c \<le> sint (scan_entry n c)" by (rule scan_entry_mono)
  also have "\<dots> \<le> sint (fold scan_entry ns (scan_entry n c))" by (rule Cons.IH)
  finally show ?case by simp
qed

lemma fold_scan_upper:
  "sint c \<le> k \<Longrightarrow>
   \<forall>name\<in>set names. startsWith name ''ring_'' \<and> endsWith name ''.jpg''
      \<longrightarrow> sint (toInt (substring name 5 9)) \<le> k \<Longrightarrow>
   sint (fold scan_entry names c) \<le> k"
proof (induction names arbitrary: c)
  case Nil
  then show ?case by simp
next
  case (Cons n ns)
  have "sint (scan_entry n c) \<le> k"
    using scan_entry_cases [of n c] Cons.prems by auto
  then show ?case using Cons.IH Cons.prems(2) by simp
qed

lemma fold_scan_lower:
  "name \<in> set names \<Longrightarrow> startsWith name ''ring_'' \<Longrightarrow> endsWith name ''.jpg'' \<Longrightarrow>
   sint (toInt (substring name 5 9)) \<le> sint (fold scan_entry names c)"
proof (induction names arbitrary: c)
  case Nil
  then show ?case by simp
next
  case (Cons n ns)
  show ?case
  proof (cases "name = n")
    case True
    have "sint (toInt (substring name 5 9)) \<le> sint (scan_entry n c)"
      using Cons.prems(2,3) True by (simp add: scan_entry_def Let_def word_sless_alt)
    also have "\<dots> \<le> sint (fold scan_entry ns (scan_entry n c))" by (rule fold_scan_mono)
    finally show ?thesis by simp
  next
    case False
    with Cons.prems have "name \<in> set ns" by simp
    from Cons.IH [OF this Cons.prems(2,3)] show ?thesis by simp
  qed
qed

lemma ring_0005: "startsWith ''ring_0005.jpg'' ''ring_'' \<and> endsWith ''ring_0005.jpg'' ''.jpg''
  \<and> toInt (substring ''ring_0005.jpg'' 5 9) = 5"
  by code_simp

lemma recover_5:
  assumes "''ring_0005.jpg'' \<in> set names"
    and "\<forall>name\<in>set names. startsWith name ''ring_'' \<and> endsWith name ''.jpg''
           \<longrightarrow> sint (toInt (substring name 5 9)) \<le> 5"
  shows "fold scan_entry names 0 = 5"
proof -
  have "sint (fold scan_entry names 0) \<le> 5"
    using fold_scan_upper [of 0 5 names] assms(2) by simp
  moreover have "5 \<le> sint (fold scan_entry names 0)"
    using fold_scan_lower [OF assms(1), of 0] ring_0005 by simp
  ultimately have "sint (fold scan_entry names 0) = sint (5 :: 32 word)" by simp
  then show ?thesis by (simp only: signed_word_eqI)
qed

subsection \<open>Polls inside the debounce window\<close>

lemma polls_in_window:
  "\<forall>q\<in>set ps. t_debounce q - lastButtonPress w \<le> DEBOUNCE_MS \<Longrightarrow>
   fst (polls ps w) = replicate (length ps) False \<and> lastButtonPress (snd (polls ps w)) = lastButtonPress w"
proof (induction ps arbitrary: w)
  case Nil
  then show ?case by simp
next
  case (Cons p ps)
  from Cons.prems have rej: "\<not> DEBOUNCE_MS < t_debounce p - lastButtonPress w"
    by (simp add: not_less)
  then have one: "isButtonPressed p w = (False, w\<lparr>lastButtonState := pin p\<rparr>)"
    by (simp add: isButtonPressed_def)
  have "\<forall>q\<in>set ps. t_debounce q - lastButtonPress (w\<lparr>lastButtonState := pin p\<rparr>) \<le> DEBOUNCE_MS"
    using Cons.prems by simp
  from Cons.IH [OF this] show ?case
    by (simp add: one split_def)
qed

subsection \<open>When a capture returns\<close>

lemma recordAudio_returns:
  "sample_loop (t_start a) (rounds a) [] \<noteq> None \<Longrightarrow> \<exists>r w1. recordAudio a i w = Some (r, w1)"
  by (auto simp: recordAudio_def Let_def)

lemma doCapture_returns:
  assumes "sample_loop (t_start (audio c)) (rounds (audio c)) [] \<noteq> None"
  shows "\<exists>w1. doCapture c w = Some w1"
proof -
  obtain f w2 where cp:
    "capturePhoto (photo c) (ringCount w + 1) (w\<lparr>ringCount := ringCount w + 1\<rparr>) = (f, w2)"
    by (cases "capturePhoto (photo c) (ringCount w + 1) (w\<lparr>ringCount := ringCount w + 1\<rparr>)")
  from recordAudio_returns [OF assms]
  obtain r w4 where
    "recordAudio (audio c) (ringCount w + 1)
       (if 0 < length f then w2\<lparr>lastPhotoFile := f\<rparr> else w2) = Some (r, w4)"
    by blast
  with cp show ?thesis
    by (simp add: doCapture_def Let_def)
qed

lemma captures_returns:
  "\<forall>c\<in>set cs. sample_loop (t_start (audio c)) (rounds (audio c)) [] \<noteq> None \<Longrightarrow>
   \<exists>w'. captures cs w = Some w'"
proof (induction cs arbitrary: w)
  case Nil
  show ?case by simp
next
  case (Cons c cs)
  from Cons.prems obtain w1 where "doCapture c w = Some w1"
    using doCapture_returns [of c w] by auto
  moreover from Cons.prems obtain w' where "captures cs w1 = Some w'"
    using Cons.IH [of w1] by auto
  ultimately show ?case by simp
qed

lemma cap0_returns: "sample_loop (t_start (audio cap0)) (rounds (audio cap0)) [] \<noteq> None"
  by (simp add: cap0_def AUDIO_DURATION_MS_def)

subsection \<open>The state after start-up\<close>

lemma boot_state:
  "length (ringHistory (setup_sketch b (power_on files))) = MAX_RING_HISTORY"
  "ringHistoryCount (setup_sketch b (power_on files)) = 0"
  by (simp_all add: setup_sketch_def power_on_def initSD_def initBLE_def Let_def split_def)

lemma card5_names:
  "''ring_0005.jpg'' \<in> set (dir_names card5)"
  "\<forall>name\<in>set (dir_names card5). startsWith name ''ring_'' \<and> endsWith name ''.jpg''
              \<longrightarrow> sint (toInt (substring name 5 9)) \<le> 5"
  by code_simp+

subsection \<open>What the handlers and the parts of the loop change\<close>

lemma stream_loop_frame:
  "stream_loop fs w = Some w' \<Longrightarrow> w' = w\<lparr>sent := sent w', fb_taken := fb_taken w'\<rparr>"
proof (induction fs arbitrary: w)
  case Nil
  then show ?case by simp
next
  case (Cons x fs)
  obtain connected f where x: "x = (connected, f)" by (cases x)
  show ?case
  proof (cases "connected \<and> f \<noteq> None")
    case False
    with Cons.prems x show ?thesis by (auto split: option.splits)
  next
    case True
    then obtain buf where f: "f = Some buf" by auto
    let ?part = "''--frame'' @ [CHR 0x0D, CHR 0x0A]
                           @ ''Content-Type: image/jpeg'' @ [CHR 0x0D, CHR 0x0A]
                           @ ''Content-Length: '' @ String_int (int (length buf))
                           @ [CHR 0x0D, CHR 0x0A, CHR 0x0D, CHR 0x0A]"
    let ?w = "w\<lparr>fb_taken := fb_taken w + 1,
                    sent := sent w @ [ClientWrite ?part, ClientWrite buf,
                                 ClientWrite [CHR 0x0D, CHR 0x0A]]\<rparr>"
    from Cons.prems x True f have "stream_loop fs ?w = Some w'"
      by (simp add: Let_def)
    from Cons.IH [OF this] show ?thesis by simp
  qed
qed

lemma handleClient_frame:
  "handleClient i w = Some w' \<Longrightarrow> w' = w\<lparr>sent := sent w', fb_taken := fb_taken w'\<rparr>"
proof -
  assume a: "handleClient i w = Some w'"
  show ?thesis
  proof (cases "request i")
    case None
    with a show ?thesis by (simp add: handleClient_def)
  next
    case (Some r)
    show ?thesis
    proof (cases r)
      case GET_root
      with a Some show ?thesis by (auto simp: handleClient_def handleRoot_def Let_def)
    next
      case (GET_photo arg)
      with a Some show ?thesis
        by (auto simp: handleClient_def handlePhoto_def Let_def split: option.splits if_splits)
    next
      case GET_stream
      with a Some have "stream_loop (frames i)
          (w\<lparr>sent := sent w @ [ClientWrite (''HTTP/1.1 200 OK'' @ [CHR 0x0D, CHR 0x0A]
                   @ ''Content-Type: multipart/x-mixed-replace;boundary=frame''
                   @ [CHR 0x0D, CHR 0x0A]
                   @ ''Access-Control-Allow-Origin: *''
                   @ [CHR 0x0D, CHR 0x0A, CHR 0x0D, CHR 0x0A])]\<rparr>) = Some w'"
        by (simp add: handleClient_def handleStream_def Let_def)
      from stream_loop_frame [OF this] show ?thesis by simp
    next
      case GET_status
      with a Some show ?thesis by (auto simp: handleClient_def handleStatus_def Let_def)
    next
      case GET_other
      with a Some show ?thesis by (simp add: handleClient_def)
    qed
  qed
qed

lemma handleClient_returns:
  "request i \<noteq> Some GET_stream \<Longrightarrow> \<exists>w'. handleClient i w = Some w'"
  by (auto simp: handleClient_def split: option.splits request.splits)

lemma service_frame:
  "service t w = Some w1 \<Longrightarrow> w1 = w\<lparr>sent := sent w1, fb_taken := fb_taken w1\<rparr>"
  by (auto simp: service_def dest: handleClient_frame split: if_splits)

lemma readvertise_frame:
  "readvertise w = w\<lparr>adv_starts := adv_starts (readvertise w),
                      bleOldDeviceConnected := bleOldDeviceConnected (readvertise w)\<rparr>"
  by (simp add: readvertise_def Let_def)

lemma loop_split:
  assumes "loop t w = Some w'"
  obtains s k a b where
    "state_machine t (w\<lparr>sent := s, fb_taken := k, adv_starts := a,
                        bleOldDeviceConnected := b\<rparr>) = Some w'"
proof -
  from assms obtain w1 where s: "service t w = Some w1"
    and m: "state_machine t (readvertise w1) = Some w'"
    by (auto simp: loop_def split: option.splits)
  from service_frame [OF s] obtain s' k where w1: "w1 = w\<lparr>sent := s', fb_taken := k\<rparr>"
    by blast
  have "readvertise w1 = w\<lparr>sent := s', fb_taken := k,
                      adv_starts := adv_starts (readvertise w1),
                      bleOldDeviceConnected := bleOldDeviceConnected (readvertise w1)\<rparr>"
    using readvertise_frame [of w1] w1 by simp
  with m that show ?thesis by metis
qed

lemma capturePhoto_changes:
  "capturePhoto p i w = (f, w1) \<Longrightarrow> w1 = w\<lparr>sd_files := sd_files w1, fb_taken := fb_taken w1\<rparr>"
  by (auto simp: capturePhoto_def Let_def split: option.splits if_splits)

lemma recordAudio_changes:
  "recordAudio a i w = Some (r, w1) \<Longrightarrow> w1 = w\<lparr>sd_files := sd_files w1\<rparr>"
  by (auto simp: recordAudio_def Let_def split: option.splits if_splits)

lemma doCapture_changes:
  assumes "doCapture c w = Some w1"
  shows "\<exists>rc lp sf rh rhc k. w1 = w\<lparr>ringCount := rc, lastPhotoFile := lp, sd_files := sf,
                                     ringHistory := rh, ringHistoryCount := rhc,
                                     fb_taken := k\<rparr>"
proof -
  let ?w1 = "w\<lparr>ringCount := ringCount w + 1\<rparr>"
  let ?id = "ringCount w + 1"
  obtain f w2 where cp: "capturePhoto (photo c) ?id ?w1 = (f, w2)"
    by (cases "capturePhoto (photo c) ?id ?w1")
  let ?w3 = "if 0 < length f then w2\<lparr>lastPhotoFile := f\<rparr> else w2"
  from assms cp obtain r w4 where ra: "recordAudio (audio c) ?id ?w3 = Some (r, w4)"
    by (auto simp: doCapture_def Let_def split: option.splits)
  from capturePhoto_changes [OF cp] obtain x k where
    w2: "w2 = ?w1\<lparr>sd_files := x, fb_taken := k\<rparr>" by blast
  from recordAudio_changes [OF ra] obtain y where w4: "w4 = ?w3\<lparr>sd_files := y\<rparr>" by blast
  from assms cp ra have "w1 = w4\<lparr>ringHistory := ringHistory w1,
                                  ringHistoryCount := ringHistoryCount w1\<rparr>"
    by (auto simp: doCapture_def Let_def split: if_splits)
  then obtain rh rhc where
    w1: "w1 = w4\<lparr>ringHistory := rh, ringHistoryCount := rhc\<rparr>"
    by blast
  have "\<exists>lp. ?w3 = w\<lparr>ringCount := ?id, lastPhotoFile := lp, sd_files := x, fb_taken := k\<rparr>"
  proof (cases "0 < length f")
    case True
    then have "?w3 = w\<lparr>ringCount := ?id, lastPhotoFile := f, sd_files := x, fb_taken := k\<rparr>"
      using w2 by simp
    then show ?thesis by blast
  next
    case False
    then have "?w3 = w\<lparr>ringCount := ?id, lastPhotoFile := lastPhotoFile w, sd_files := x,
                     fb_taken := k\<rparr>"
      using w2 by simp
    then show ?thesis by blast
  qed
  then obtain lp where
    "?w3 = w\<lparr>ringCount := ?id, lastPhotoFile := lp, sd_files := x, fb_taken := k\<rparr>"
    by blast
  with w4 w1 have "w1 = w\<lparr>ringCount := ?id, lastPhotoFile := lp, sd_files := y,
                           ringHistory := rh, ringHistoryCount := rhc, fb_taken := k\<rparr>"
    by simp
  then show ?thesis by blast
qed

lemma doNotify_changes:
  "doNotify n w = w\<lparr>sd_files := sd_files (doNotify n w),
                     characteristic := characteristic (doNotify n w),
                     notified := notified (doNotify n w)\<rparr>"
  by (simp add: doNotify_def logRingEvent_def sendBLENotification_def Let_def)

subsection \<open>One round of the loop, state by state\<close>

lemma service_state:
  assumes "service t w = Some w1"
  shows "currentState w1 = currentState w"
proof -
  from service_frame [OF assms] obtain s k where "w1 = w\<lparr>sent := s, fb_taken := k\<rparr>"
    by blast
  then show ?thesis by simp
qed

lemma readvertise_state: "currentState (readvertise w) = currentState w"
  by (simp add: readvertise_def Let_def)

lemma state_machine_btn:
  "currentState w \<noteq> STATE_IDLE \<Longrightarrow> state_machine (t\<lparr>btn := q\<rparr>) w = state_machine t w"
  by (cases "currentState w") (simp_all add: state_machine_def split: option.splits)

lemma loop_btn:
  assumes "currentState w \<noteq> STATE_IDLE"
  shows "loop (t\<lparr>btn := q\<rparr>) w = loop t w"
proof -
  have s: "service (t\<lparr>btn := q\<rparr>) w = service t w" by (simp add: service_def)
  show ?thesis
  proof (cases "service t w")
    case None
    with s show ?thesis by (simp add: loop_def)
  next
    case (Some w1)
    from service_state [OF Some] assms readvertise_state [of w1]
    have "currentState (readvertise w1) \<noteq> STATE_IDLE" by simp
    from state_machine_btn [OF this] s Some show ?thesis by (simp add: loop_def)
  qed
qed

lemma step_btn:
  "currentState w \<noteq> STATE_IDLE \<Longrightarrow> step (set_btn q e) w = step e w"
  by (cases e) (simp_all add: step_def set_btn_def loop_btn)

lemma loop_capturing:
  assumes "currentState w = STATE_CAPTURING" "loop t w = Some w'"
  shows "currentState w' = STATE_NOTIFYING \<and> stateEnteredAt w' = t_enter t
         \<and> ringCount w' = ringCount w + 1
         \<and> lastButtonState w' = lastButtonState w \<and> lastButtonPress w' = lastButtonPress w
         \<and> notified w' = notified w"
proof -
  from assms(2) obtain s k a b where
    m: "state_machine t (w\<lparr>sent := s, fb_taken := k, adv_starts := a,
                           bleOldDeviceConnected := b\<rparr>) = Some w'"
    by (rule loop_split)
  let ?w = "w\<lparr>sent := s, fb_taken := k, adv_starts := a, bleOldDeviceConnected := b\<rparr>"
  from m assms(1) obtain w1 where d: "doCapture (cap t) ?w = Some w1"
    and w': "w' = w1\<lparr>currentState := STATE_NOTIFYING, stateEnteredAt := t_enter t\<rparr>"
    by (auto simp: state_machine_def split: option.splits)
  from doCapture_changes [OF d] obtain rc lp sf rh rhc k' where
    "w1 = ?w\<lparr>ringCount := rc, lastPhotoFile := lp, sd_files := sf,
              ringHistory := rh, ringHistoryCount := rhc, fb_taken := k'\<rparr>"
    by blast
  with w' doCapture_history(1) [OF d] show ?thesis by simp
qed

lemma loop_notifying:
  assumes "currentState w = STATE_NOTIFYING" "loop t w = Some w'"
  shows "currentState w' = STATE_COOLDOWN \<and> stateEnteredAt w' = t_enter t
         \<and> ringCount w' = ringCount w
         \<and> ringHistory w' = ringHistory w \<and> ringHistoryCount w' = ringHistoryCount w
         \<and> lastButtonState w' = lastButtonState w \<and> lastButtonPress w' = lastButtonPress w"
proof -
  from assms(2) obtain s k a b where
    m: "state_machine t (w\<lparr>sent := s, fb_taken := k, adv_starts := a,
                           bleOldDeviceConnected := b\<rparr>) = Some w'"
    by (rule loop_split)
  let ?w = "w\<lparr>sent := s, fb_taken := k, adv_starts := a, bleOldDeviceConnected := b\<rparr>"
  from m assms(1)
  have w': "w' = (doNotify (ntf t) ?w)\<lparr>currentState := STATE_COOLDOWN, stateEnteredAt := t_enter t\<rparr>"
    by (auto simp: state_machine_def)
  obtain x y z where "doNotify (ntf t) ?w = ?w\<lparr>sd_files := x, characteristic := y, notified := z\<rparr>"
    using doNotify_changes [of "ntf t" ?w] by blast
  with w' show ?thesis by simp
qed

lemma loop_cooldown:
  assumes "currentState w = STATE_COOLDOWN" "loop t w = Some w'"
  shows "currentState w' = (if COOLDOWN_MS \<le> t_cool t - stateEnteredAt w
                            then STATE_IDLE else STATE_COOLDOWN)
         \<and> stateEnteredAt w' = (if COOLDOWN_MS \<le> t_cool t - stateEnteredAt w
                                then t_enter t else stateEnteredAt w)
         \<and> ringCount w' = ringCount w
         \<and> ringHistory w' = ringHistory w \<and> ringHistoryCount w' = ringHistoryCount w
         \<and> lastButtonState w' = lastButtonState w \<and> lastButtonPress w' = lastButtonPress w
         \<and> notified w' = notified w"
proof -
  from assms(2) obtain s k a b where
    m: "state_machine t (w\<lparr>sent := s, fb_taken := k, adv_starts := a,
                           bleOldDeviceConnected := b\<rparr>) = Some w'"
    by (rule loop_split)
  with assms(1) show ?thesis
    by (auto simp: state_machine_def split: if_splits)
qed

lemma callback_frame:
  "currentState (onConnect w) = currentState w \<and> ringCount (onConnect w) = ringCount w
   \<and> ringHistory (onConnect w) = ringHistory w
   \<and> ringHistoryCount (onConnect w) = ringHistoryCount w
   \<and> lastButtonState (onConnect w) = lastButtonState w
   \<and> lastButtonPress (onConnect w) = lastButtonPress w
   \<and> stateEnteredAt (onConnect w) = stateEnteredAt w
   \<and> currentState (onDisconnect w) = currentState w \<and> ringCount (onDisconnect w) = ringCount w
   \<and> ringHistory (onDisconnect w) = ringHistory w
   \<and> ringHistoryCount (onDisconnect w) = ringHistoryCount w
   \<and> lastButtonState (onDisconnect w) = lastButtonState w
   \<and> lastButtonPress (onDisconnect w) = lastButtonPress w
   \<and> stateEnteredAt (onDisconnect w) = stateEnteredAt w"
  by (simp add: onConnect_def onDisconnect_def)

lemma busy_run_returns: "busy_run es w \<Longrightarrow> \<exists>w'. run es w = Some w'"
  by (induction es arbitrary: w) (auto split: option.splits)

lemma busy_run_btn:
  "busy_run es w \<Longrightarrow> length qs = length es \<Longrightarrow> run (map2 set_btn qs es) w = run es w"
proof (induction es arbitrary: w qs)
  case Nil
  then show ?case by simp
next
  case (Cons e es)
  from Cons.prems(2) obtain q qs' where qs: "qs = q # qs'" and len: "length qs' = length es"
    by (cases qs) auto
  from Cons.prems(1) obtain w1 where busy: "currentState w \<noteq> STATE_IDLE"
    and st: "step e w = Some w1" and rest: "busy_run es w1"
    by (auto split: option.splits)
  from Cons.IH [OF rest len] step_btn [OF busy, of q e] st qs show ?case by simp
qed

text \<open>After the capture: no id is allocated and the history stays as it is.\<close>

lemma busy_run_after_capture:
  "busy_run es w \<Longrightarrow> currentState w = STATE_NOTIFYING \<or> currentState w = STATE_COOLDOWN \<Longrightarrow>
   run es w = Some w' \<Longrightarrow>
   ringCount w' = ringCount w \<and> ringHistory w' = ringHistory w
   \<and> ringHistoryCount w' = ringHistoryCount w
   \<and> lastButtonState w' = lastButtonState w \<and> lastButtonPress w' = lastButtonPress w"
proof (induction es arbitrary: w)
  case Nil
  then show ?case by simp
next
  case (Cons e es)
  from Cons.prems(1,3) obtain w1 where st: "step e w = Some w1" and rest: "busy_run es w1"
    and r: "run es w1 = Some w'"
    by (auto split: option.splits)
  have one: "ringCount w1 = ringCount w \<and> ringHistory w1 = ringHistory w
     \<and> ringHistoryCount w1 = ringHistoryCount w
     \<and> lastButtonState w1 = lastButtonState w \<and> lastButtonPress w1 = lastButtonPress w
     \<and> (currentState w1 = STATE_NOTIFYING \<or> currentState w1 = STATE_COOLDOWN
          \<or> currentState w1 = STATE_IDLE)"
  proof (cases e)
    case (Tick t)
    with st have l: "loop t w = Some w1" by (simp add: step_def)
    from Cons.prems(2) show ?thesis
    proof
      assume "currentState w = STATE_NOTIFYING"
      from loop_notifying [OF this l] show ?thesis by simp
    next
      assume "currentState w = STATE_COOLDOWN"
      from loop_cooldown [OF this l] show ?thesis by simp
    qed
  next
    case Connect
    with st Cons.prems(2) callback_frame [of w] show ?thesis by (auto simp: step_def)
  next
    case Disconnect
    with st Cons.prems(2) callback_frame [of w] show ?thesis by (auto simp: step_def)
  qed
  show ?case
  proof (cases "currentState w1 = STATE_IDLE")
    case True
    with rest have "es = []" by (cases es) auto
    with r one show ?thesis by simp
  next
    case False
    with one have "currentState w1 = STATE_NOTIFYING \<or> currentState w1 = STATE_COOLDOWN"
      by blast
    from Cons.IH [OF rest this r] one show ?thesis by simp
  qed
qed

lemma busy_run_capturing:
  "busy_run es w \<Longrightarrow> currentState w = STATE_CAPTURING \<Longrightarrow> run es w = Some w' \<Longrightarrow>
   ringCount w' = ringCount w + (if \<exists>t. Tick t \<in> set es then 1 else 0)
   \<and> lastButtonState w' = lastButtonState w \<and> lastButtonPress w' = lastButtonPress w"
proof (induction es arbitrary: w)
  case Nil
  then show ?case by simp
next
  case (Cons e es)
  from Cons.prems(1,3) obtain w1 where st: "step e w = Some w1" and rest: "busy_run es w1"
    and r: "run es w1 = Some w'"
    by (auto split: option.splits)
  show ?case
  proof (cases e)
    case (Tick t)
    with st have l: "loop t w = Some w1" by (simp add: step_def)
    note c = loop_capturing [OF Cons.prems(2) l]
    then have "currentState w1 = STATE_NOTIFYING \<or> currentState w1 = STATE_COOLDOWN" by simp
    from busy_run_after_capture [OF rest this r] c Tick show ?thesis by auto
  next
    case Connect
    with st have w1: "w1 = onConnect w" by (simp add: step_def)
    with Cons.prems(2) callback_frame [of w] have "currentState w1 = STATE_CAPTURING" by simp
    from Cons.IH [OF rest this r] w1 callback_frame [of w] Connect show ?thesis by auto
  next
    case Disconnect
    with st have w1: "w1 = onDisconnect w" by (simp add: step_def)
    with Cons.prems(2) callback_frame [of w] have "currentState w1 = STATE_CAPTURING" by simp
    from Cons.IH [OF rest this r] w1 callback_frame [of w] Disconnect show ?thesis by auto
  qed
qed




lemma service_returns:
  "request (web t) \<noteq> Some GET_stream \<Longrightarrow> \<exists>w1. service t w = Some w1"
  using handleClient_returns [of "web t" w] by (auto simp: service_def)

lemma state_machine_returns:
  "currentState w = STATE_CAPTURING
     \<longrightarrow> sample_loop (t_start (audio (cap t))) (rounds (audio (cap t))) [] \<noteq> None \<Longrightarrow>
   \<exists>w'. state_machine t w = Some w'"
  using doCapture_returns [of "cap t" w]
  by (cases "currentState w") (auto simp: state_machine_def split_def Let_def)

lemma loop_returns:
  assumes "request (web t) \<noteq> Some GET_stream"
    and "currentState w = STATE_CAPTURING
     \<longrightarrow> sample_loop (t_start (audio (cap t))) (rounds (audio (cap t))) [] \<noteq> None"
  shows "\<exists>w'. loop t w = Some w'"
proof -
  from service_returns [OF assms(1)] obtain w1 where s: "service t w = Some w1" by blast
  from service_state [OF s] readvertise_state [of w1] assms(2)
  have "currentState (readvertise w1) = STATE_CAPTURING
     \<longrightarrow> sample_loop (t_start (audio (cap t))) (rounds (audio (cap t))) [] \<noteq> None"
    by simp
  from state_machine_returns [OF this] s show ?thesis by (simp add: loop_def)
qed

lemma loop_idle:
  assumes "currentState w = STATE_IDLE" "loop t w = Some w'"
  shows "(if lastButtonState w \<and> \<not> pin (btn t)
             \<and> DEBOUNCE_MS < t_debounce (btn t) - lastButtonPress w
          then currentState w' = STATE_CAPTURING \<and> stateEnteredAt w' = t_enter t
               \<and> lastButtonPress w' = t_press (btn t)
          else currentState w' = STATE_IDLE \<and> stateEnteredAt w' = stateEnteredAt w
               \<and> lastButtonPress w' = lastButtonPress w)
         \<and> lastButtonState w' = pin (btn t)
         \<and> ringCount w' = ringCount w
         \<and> ringHistory w' = ringHistory w \<and> ringHistoryCount w' = ringHistoryCount w
         \<and> notified w' = notified w"
proof -
  from assms(2) obtain s k a b where
    m: "state_machine t (w\<lparr>sent := s, fb_taken := k, adv_starts := a,
                           bleOldDeviceConnected := b\<rparr>) = Some w'"
    by (rule loop_split)
  with assms(1) show ?thesis
    by (auto simp: state_machine_def isButtonPressed_def Let_def split: if_splits)
qed

lemma round_at_simps:
  "request (web (round_at l a b)) = None"
  "pin (btn (round_at l a b)) = l"
  "t_debounce (btn (round_at l a b)) = a"
  "t_press (btn (round_at l a b)) = a"
  "t_cool (round_at l a b) = a"
  "t_enter (round_at l a b) = b"
  "t_start (audio (cap (round_at l a b))) = a"
  "rounds (audio (cap (round_at l a b))) = [(a, Some ''pcm''), (b, None)]"
  by (simp_all add: round_at_def)

lemma boot_idle:
  "currentState (setup_sketch b (power_on files)) = STATE_IDLE"
  "lastButtonState (setup_sketch b (power_on files))"
  "lastButtonPress (setup_sketch b (power_on files)) = 0"
  "notified (setup_sketch b (power_on files)) = []"
  by (simp_all add: setup_sketch_def power_on_def initSD_def initBLE_def Let_def split_def)

subsection \<open>What a round writes to the card and to the BLE characteristic\<close>

lemma map_of_put_file: "map_of (put_file p c fs) p = Some c"
  by (induction fs) auto

lemma new_event_eq:
  "new_event c w =
     \<lparr>id' = ringCount w + 1, timestamp = t_hist c,
      filename = (case fb (photo c) of None \<Rightarrow> [] | Some buf \<Rightarrow> photo_name (ringCount w + 1))\<rparr>"
  by (simp add: new_event_def capturePhoto_def Let_def split: option.splits)

lemma doCapture_files:
  "doCapture c w = Some w1 \<Longrightarrow> sd_files w1 = files_after_capture c w"
  by (auto simp: doCapture_def capturePhoto_def recordAudio_def files_after_capture_def Let_def
           split: if_splits option.splits)

lemma loop_capturing_effects:
  assumes "currentState w = STATE_CAPTURING" "loop t w = Some w'"
  shows "sd_files w' = files_after_capture (cap t) w"
    and "sdAvailable w' = sdAvailable w"
    and "bleDeviceConnected w' = bleDeviceConnected w"
    and "length (ringHistory w) = MAX_RING_HISTORY \<Longrightarrow> ringHistoryCount w \<le> MAX_RING_HISTORY
         \<Longrightarrow> history w' = drop (ringHistoryCount w + 1 - MAX_RING_HISTORY)
                               (history w @ [new_event (cap t) w])
             \<and> length (ringHistory w') = MAX_RING_HISTORY
             \<and> ringHistoryCount w' \<le> MAX_RING_HISTORY"
proof -
  from assms(2) obtain s k a b where
    m: "state_machine t (w\<lparr>sent := s, fb_taken := k, adv_starts := a,
                           bleOldDeviceConnected := b\<rparr>) = Some w'"
    by (rule loop_split)
  let ?w = "w\<lparr>sent := s, fb_taken := k, adv_starts := a, bleOldDeviceConnected := b\<rparr>"
  from m assms(1) obtain w1 where d: "doCapture (cap t) ?w = Some w1"
    and w': "w' = w1\<lparr>currentState := STATE_NOTIFYING, stateEnteredAt := t_enter t\<rparr>"
    by (auto simp: state_machine_def split: option.splits)
  have "files_after_capture (cap t) ?w = files_after_capture (cap t) w"
    by (auto simp: files_after_capture_def Let_def split: option.splits)
  with doCapture_files [OF d] w' show "sd_files w' = files_after_capture (cap t) w"
    by simp
  from doCapture_changes [OF d] obtain rc lp sf rh rhc k' where
    "w1 = ?w\<lparr>ringCount := rc, lastPhotoFile := lp, sd_files := sf,
              ringHistory := rh, ringHistoryCount := rhc, fb_taken := k'\<rparr>"
    by blast
  with w' show "sdAvailable w' = sdAvailable w" "bleDeviceConnected w' = bleDeviceConnected w"
    by simp_all
  assume inv: "length (ringHistory w) = MAX_RING_HISTORY" "ringHistoryCount w \<le> MAX_RING_HISTORY"
  then have inv': "length (ringHistory ?w) = MAX_RING_HISTORY"
    "ringHistoryCount ?w \<le> MAX_RING_HISTORY"
    by simp_all
  have ne: "new_event (cap t) ?w = new_event (cap t) w"
    by (simp add: new_event_eq split: option.splits)
  from doCapture_step [OF d inv'] ne w'
  show "history w' = drop (ringHistoryCount w + 1 - MAX_RING_HISTORY)
                               (history w @ [new_event (cap t) w])
             \<and> length (ringHistory w') = MAX_RING_HISTORY
             \<and> ringHistoryCount w' \<le> MAX_RING_HISTORY"
    by (simp add: history_def)
qed

lemma loop_notifying_effects:
  assumes "currentState w = STATE_NOTIFYING" "loop t w = Some w'"
  shows "sd_files w' = sd_files (logRingEvent (log_open (ntf t)) (t_log (ntf t)) (ringCount w) w)"
    and "sdAvailable w' = sdAvailable w"
    and "bleDeviceConnected w' = bleDeviceConnected w"
    and "if bleDeviceConnected w
         then notified w' = notified w
                @ [''Ring #'' @ String_int (sint (ringCount w)) @ '' at ''
                   @ String_int (uint (t_ble (ntf t) div 1000)) @ ''s'']
              \<and> characteristic w' = ''Ring #'' @ String_int (sint (ringCount w)) @ '' at ''
                   @ String_int (uint (t_ble (ntf t) div 1000)) @ ''s''
         else notified w' = notified w \<and> characteristic w' = characteristic w"
proof -
  from assms(2) obtain s k a b where
    m: "state_machine t (w\<lparr>sent := s, fb_taken := k, adv_starts := a,
                           bleOldDeviceConnected := b\<rparr>) = Some w'"
    by (rule loop_split)
  let ?w = "w\<lparr>sent := s, fb_taken := k, adv_starts := a, bleOldDeviceConnected := b\<rparr>"
  from m assms(1)
  have w': "w' = (doNotify (ntf t) ?w)\<lparr>currentState := STATE_COOLDOWN, stateEnteredAt := t_enter t\<rparr>"
    by (auto simp: state_machine_def)
  show "sd_files w' = sd_files (logRingEvent (log_open (ntf t)) (t_log (ntf t)) (ringCount w) w)"
    by (simp add: w' doNotify_def logRingEvent_def sendBLENotification_def Let_def)
  show "sdAvailable w' = sdAvailable w"
    by (simp add: w' doNotify_def logRingEvent_def sendBLENotification_def Let_def)
  show "bleDeviceConnected w' = bleDeviceConnected w"
    by (simp add: w' doNotify_def logRingEvent_def sendBLENotification_def Let_def)
  show "if bleDeviceConnected w
         then notified w' = notified w
                @ [''Ring #'' @ String_int (sint (ringCount w)) @ '' at ''
                   @ String_int (uint (t_ble (ntf t) div 1000)) @ ''s'']
              \<and> characteristic w' = ''Ring #'' @ String_int (sint (ringCount w)) @ '' at ''
                   @ String_int (uint (t_ble (ntf t) div 1000)) @ ''s''
         else notified w' = notified w \<and> characteristic w' = characteristic w"
    by (simp add: w' doNotify_def logRingEvent_def sendBLENotification_def Let_def)
qed

lemma loop_quiet:
  assumes "currentState w = STATE_IDLE \<or> currentState w = STATE_COOLDOWN" "loop t w = Some w'"
  shows "sd_files w' = sd_files w" "sdAvailable w' = sdAvailable w"
    "characteristic w' = characteristic w" "bleDeviceConnected w' = bleDeviceConnected w"
proof -
  from assms(2) obtain s k a b where
    m: "state_machine t (w\<lparr>sent := s, fb_taken := k, adv_starts := a,
                           bleOldDeviceConnected := b\<rparr>) = Some w'"
    by (rule loop_split)
  with assms(1) show "sd_files w' = sd_files w" "sdAvailable w' = sdAvailable w"
    "characteristic w' = characteristic w" "bleDeviceConnected w' = bleDeviceConnected w"
    by (auto simp: state_machine_def isButtonPressed_def Let_def split: if_splits)
qed



subsection \<open>The sample states and inputs\<close>

lemma names_1:
  "photo_name 1 = ''/doorbell/ring_0001.jpg''"
  "audio_name 1 = ''/doorbell/ring_0001.raw''"
  by code_simp+

lemma boot_fresh:
  "sdAvailable (setup_sketch boot0 (power_on fs))"
  "sd_files (setup_sketch boot0 (power_on fs)) = fs"
  "ringCount (setup_sketch boot0 (power_on fs)) = fold scan_entry (dir_names fs) 0"
  "history (setup_sketch boot0 (power_on fs)) = []"
  "\<not> bleDeviceConnected (setup_sketch boot0 (power_on fs))"
  by (simp_all add: setup_sketch_def power_on_def initSD_def initBLE_def boot0_def history_def
        Let_def split_def)

lemma press_gives_ringing:
  "loop (round_at False 10000 10000) (setup_sketch boot0 (power_on [])) = Some ringing"
  by (simp add: loop_def service_def handleClient_def readvertise_def state_machine_def
        isButtonPressed_def round_at_def ringing_def setup_sketch_def power_on_def initSD_def
        initBLE_def boot0_def DEBOUNCE_MS_def Let_def dir_names_def)

lemma ringing_simps:
  "currentState ringing = STATE_CAPTURING"
  "sdAvailable ringing"
  "sd_files ringing = []"
  "ringCount ringing = 0"
  "length (ringHistory ringing) = MAX_RING_HISTORY"
  "ringHistoryCount ringing = 0"
  "history ringing = []"
  "\<not> bleDeviceConnected ringing"
  "notified ringing = []"
  "fb_taken ringing = 0"
  "fb_held ringing = 0"
  by (simp_all add: ringing_def boot0_def dir_names_def history_def
        setup_sketch_def power_on_def initSD_def initBLE_def Let_def split_def)

lemma sample_rounds:
  "request (web blind_round) = None"
  "fb (photo (cap blind_round)) = None"
  "raw_open (audio (cap blind_round))"
  "t_hist (cap blind_round) = 12010"
  "sample_loop (t_start (audio (cap blind_round))) (rounds (audio (cap blind_round))) []
     = Some ''pcm''"
  "request (web unwritten_round) = None"
  "fb (photo (cap unwritten_round)) = Some ''jpeg''"
  "\<not> jpg_open (photo (cap unwritten_round))"
  "raw_open (audio (cap unwritten_round))"
  "t_hist (cap unwritten_round) = 12010"
  "sample_loop (t_start (audio (cap unwritten_round))) (rounds (audio (cap unwritten_round))) []
     = Some ''pcm''"
  "request (web blind_second) = None"
  "fb (photo (cap blind_second)) = None"
  "raw_open (audio (cap blind_second))"
  "t_hist (cap blind_second) = 22010"
  "sample_loop (t_start (audio (cap blind_second))) (rounds (audio (cap blind_second))) []
     = Some ''pcm2''"
  "request (web third_capture) = None"
  "fb (photo (cap third_capture)) = Some ''jpeg3''"
  "jpg_open (photo (cap third_capture))"
  "raw_open (audio (cap third_capture))"
  "t_hist (cap third_capture) = 32010"
  "sample_loop (t_start (audio (cap third_capture))) (rounds (audio (cap third_capture))) []
     = Some ''pcm3''"
  by (simp_all add: blind_round_def unwritten_round_def blind_second_def third_capture_def
        round_at_def AUDIO_DURATION_MS_def)

lemma round_at_capture:
  "fb (photo (cap (round_at l a b))) = Some ''jpeg''"
  "jpg_open (photo (cap (round_at l a b)))"
  "raw_open (audio (cap (round_at l a b)))"
  "t_hist (cap (round_at l a b)) = b"
  "AUDIO_DURATION_MS \<le> b - a
   \<Longrightarrow> sample_loop (t_start (audio (cap (round_at l a b))))
         (rounds (audio (cap (round_at l a b)))) [] = Some ''pcm''"
  by (simp_all add: round_at_def AUDIO_DURATION_MS_def not_less)

lemma round_at_notify:
  "log_open (ntf (round_at l a b))"
  "t_log (ntf (round_at l a b)) = a"
  "t_ble (ntf (round_at l a b)) = a"
  by (simp_all add: round_at_def)


lemma names_2:
  "photo_name 2 = ''/doorbell/ring_0002.jpg''"
  "audio_name 2 = ''/doorbell/ring_0002.raw''"
  by code_simp+

lemma pad_simps:
  "replicate 1 c = [c]" "replicate 2 c = [c, c]" "replicate 3 c = [c, c, c]"
  by (simp_all add: numeral_2_eq_2 numeral_3_eq_3)

lemma sample_texts:
  "log_row 1 12020 = ''1,12020,ring_0001'' @ [CHR 0x0A]"
  "String_int 1 = ''1''"
  "String_int 12 = ''12''"
  "String_int 13 = ''13''"
  "log_row 2 22020 = ''2,22020,ring_0002'' @ [CHR 0x0A]"
  "log_row 1 13000 = ''1,13000,ring_0001'' @ [CHR 0x0A]"
  by (simp_all add: log_row_def String_int_def fmt_04d_def dec.simps digit_char_def pad_simps)

section \<open>The claims of the specification\<close>

subsection \<open>C1: presses outside \<open>STATE_IDLE\<close> are dropped\<close>

text \<open>
  C1.  Take any run of the device (rounds of the loop and BLE callbacks) in which every
  event finds the controller outside \<open>STATE_IDLE\<close>, that is, while an Event is in
  flight.  The button is not polled: the stored level and the time of the last press
  stay as they are, and the run ends in the same state whatever the pin level and the
  clock were at the button in each round, so a press in that time leaves nothing behind
  that could start an Event later.  One id at most is allocated: exactly one when the
  run starts in \<open>STATE_CAPTURING\<close> and has a round of the loop (the Event of the press
  that was accepted), none from \<open>STATE_NOTIFYING\<close> or \<open>STATE_COOLDOWN\<close>, where the
  history stays as it is too.
\<close>

theorem presses_while_busy_are_dropped:
  assumes "busy_run es w"
  shows "\<exists>w'. run es w = Some w'
     \<and> (\<forall>qs. length qs = length es \<longrightarrow> run (map2 set_btn qs es) w = Some w')
     \<and> lastButtonState w' = lastButtonState w \<and> lastButtonPress w' = lastButtonPress w
     \<and> ringCount w' = ringCount w
          + (if currentState w = STATE_CAPTURING \<and> (\<exists>t. Tick t \<in> set es) then 1 else 0)
     \<and> (currentState w \<noteq> STATE_CAPTURING
          \<longrightarrow> ringHistory w' = ringHistory w \<and> ringHistoryCount w' = ringHistoryCount w)"
proof -
  from busy_run_returns [OF assms] obtain w' where r: "run es w = Some w'" by blast
  have btn: "\<forall>qs. length qs = length es \<longrightarrow> run (map2 set_btn qs es) w = Some w'"
    using busy_run_btn [OF assms] r by simp
  show ?thesis
  proof (cases es)
    case Nil
    with r btn show ?thesis by simp
  next
    case (Cons e es')
    with assms have busy: "currentState w \<noteq> STATE_IDLE" by simp
    show ?thesis
    proof (cases "currentState w = STATE_CAPTURING")
      case True
      from busy_run_capturing [OF assms True r] r btn True show ?thesis by simp
    next
      case False
      with busy have "currentState w = STATE_NOTIFYING \<or> currentState w = STATE_COOLDOWN"
        by (cases "currentState w") auto
      from busy_run_after_capture [OF assms this r] r btn False show ?thesis by simp
    qed
  qed
qed

text \<open>
  The theorem on the ring that starts at 10000 ms, with the button held down until
  13000 ms: the outcome is the same as with the button released, and one id is allocated.
\<close>

theorem presses_while_busy_are_dropped_witness:
  "busy_run held_run ringing
   \<and> (\<exists>w'. run held_run ringing = Some w'
          \<and> run (map2 set_btn (replicate 4 released) held_run) ringing = Some w'
          \<and> ringCount w' = ringCount ringing + 1
          \<and> lastButtonState w' = lastButtonState ringing)"
proof -
  have s0: "currentState ringing = STATE_CAPTURING" by (simp add: ringing_def)
  obtain w1 where l1: "loop (round_at False 10010 12010) ringing = Some w1"
    using loop_returns [of "round_at False 10010 12010" ringing]
    by (auto simp: round_at_simps AUDIO_DURATION_MS_def)
  from loop_capturing [OF s0 l1] have s1: "currentState w1 = STATE_NOTIFYING" by simp
  then have s1': "currentState (onConnect w1) = STATE_NOTIFYING"
    using callback_frame [of w1] by simp
  obtain w2 where l2: "loop (round_at False 12020 12020) (onConnect w1) = Some w2"
    using loop_returns [of "round_at False 12020 12020" "onConnect w1"] s1'
    by (auto simp: round_at_simps)
  from loop_notifying [OF s1' l2] have s2: "currentState w2 = STATE_COOLDOWN" by simp
  obtain w3 where l3: "loop (round_at False 13000 13000) w2 = Some w3"
    using loop_returns [of "round_at False 13000 13000" w2] s2
    by (auto simp: round_at_simps)
  have busy: "busy_run held_run ringing"
    using s0 l1 s1 s1' l2 s2 l3 by (simp add: held_run_def step_def)
  from presses_while_busy_are_dropped [OF busy] obtain w' where
    r: "run held_run ringing = Some w'"
    and q: "\<forall>qs. length qs = length held_run \<longrightarrow> run (map2 set_btn qs held_run) ringing = Some w'"
    and b: "lastButtonState w' = lastButtonState ringing"
    and c: "ringCount w' = ringCount ringing
          + (if currentState ringing = STATE_CAPTURING \<and> (\<exists>t. Tick t \<in> set held_run)
             then 1 else 0)"
    by blast
  have "length (replicate 4 released) = length held_run" by (simp add: held_run_def)
  with q have "run (map2 set_btn (replicate 4 released) held_run) ringing = Some w'" by blast
  moreover have "\<exists>t. Tick t \<in> set held_run" by (auto simp: held_run_def)
  with c s0 have "ringCount w' = ringCount ringing + 1" by simp
  ultimately show ?thesis using busy r b by blast
qed

subsection \<open>C2: the cooldown\<close>




subsection \<open>C3: the debounced poll\<close>

text \<open>
  C3, amended.  A poll returns true exactly when the level has fallen from HIGH to LOW
  and more than \<open>DEBOUNCE_MS\<close> (50 ms, computed modulo \<open>2 ^ 32\<close>) has passed since the
  press accepted last; hence it is accepted only if at least \<open>DEBOUNCE_MS\<close> has
  passed.  The stored level is the level read, whatever the outcome, and the time of
  the last press changes only when the poll is accepted.  After a poll, every poll of a
  sequence whose readings all lie within \<open>DEBOUNCE_MS\<close> of the last accepted press
  returns false: a press and the bounces inside that window give one accepted edge.
\<close>

theorem debounce_window:
  "isButtonPressed p w = (r, w1) \<Longrightarrow>
     (r \<longleftrightarrow> lastButtonState w \<and> \<not> pin p \<and> DEBOUNCE_MS < t_debounce p - lastButtonPress w)
   \<and> lastButtonState w1 = pin p
   \<and> lastButtonPress w1 = (if r then t_press p else lastButtonPress w)
   \<and> (\<forall>ps. (\<forall>q\<in>set ps. t_debounce q - lastButtonPress w1 \<le> DEBOUNCE_MS)
          \<longrightarrow> fst (polls ps w1) = replicate (length ps) False)"
proof -
  assume a: "isButtonPressed p w = (r, w1)"
  have w: "(\<forall>ps. (\<forall>q\<in>set ps. t_debounce q - lastButtonPress w1 \<le> DEBOUNCE_MS)
          \<longrightarrow> fst (polls ps w1) = replicate (length ps) False)"
    using polls_in_window by blast
  from a have "(r \<longleftrightarrow> lastButtonState w \<and> \<not> pin p \<and> DEBOUNCE_MS < t_debounce p - lastButtonPress w)
   \<and> lastButtonState w1 = pin p
   \<and> lastButtonPress w1 = (if r then t_press p else lastButtonPress w)"
    by (auto simp: isButtonPressed_def Let_def split: if_splits)
  with w show ?thesis by blast
qed

text \<open>
  The theorem at the boot state: the press at 1000 ms is accepted, the two polls at 1020
  and 1040 ms, the second of them a falling edge again, are not.
\<close>

theorem debounce_window_witness:
  "isButtonPressed \<lparr>pin = False, t_debounce = 1000, t_press = 1000\<rparr> (power_on [])
     = (True, (power_on [])\<lparr>lastButtonPress := 1000, lastButtonState := False\<rparr>)
   \<and> fst (polls [\<lparr>pin = True, t_debounce = 1020, t_press = 1020\<rparr>,
                 \<lparr>pin = False, t_debounce = 1040, t_press = 1040\<rparr>]
         ((power_on [])\<lparr>lastButtonPress := 1000, lastButtonState := False\<rparr>)) = [False, False]"
proof -
  have a: "isButtonPressed \<lparr>pin = False, t_debounce = 1000, t_press = 1000\<rparr> (power_on [])
     = (True, (power_on [])\<lparr>lastButtonPress := 1000, lastButtonState := False\<rparr>)"
    by (simp add: power_on_def isButtonPressed_def DEBOUNCE_MS_def)
  have b: "\<forall>q\<in>set [\<lparr>pin = True, t_debounce = 1020, t_press = 1020\<rparr>,
                 \<lparr>pin = False, t_debounce = 1040, t_press = 1040\<rparr>].
         t_debounce q - lastButtonPress ((power_on [])\<lparr>lastButtonPress := 1000, lastButtonState := False\<rparr>) \<le> DEBOUNCE_MS"
    by (simp add: DEBOUNCE_MS_def)
  from debounce_window [OF a]
  have "\<forall>ps. (\<forall>q\<in>set ps. t_debounce q
            - lastButtonPress ((power_on [])\<lparr>lastButtonPress := 1000, lastButtonState := False\<rparr>)
            \<le> DEBOUNCE_MS)
          \<longrightarrow> fst (polls ps ((power_on [])\<lparr>lastButtonPress := 1000, lastButtonState := False\<rparr>))
              = replicate (length ps) False"
    by blast
  with b have "fst (polls [\<lparr>pin = True, t_debounce = 1020, t_press = 1020\<rparr>,
                 \<lparr>pin = False, t_debounce = 1040, t_press = 1040\<rparr>]
         ((power_on [])\<lparr>lastButtonPress := 1000, lastButtonState := False\<rparr>))
       = replicate (length [\<lparr>pin = True, t_debounce = 1020, t_press = 1020\<rparr>,
                 \<lparr>pin = False, t_debounce = 1040, t_press = 1040\<rparr>]) False"
    by blast
  then show ?thesis
    using a by (simp add: numeral_2_eq_2)
qed

text \<open>
  C3 as stated fails.  In \<open>bounce\<close> the level falls at 1000, 1040 and 1080 ms:
  successive falling edges are 40 ms apart, less than \<open>DEBOUNCE_MS\<close>, yet the poll
  accepts two of them, since the third comes 80 ms after the accepted first.
\<close>

theorem bounce_accepted_twice:
  "fst (polls bounce (power_on [])) = [True, False, False, False, True]
   \<and> count_list (fst (polls bounce (power_on []))) True = 2"
  by (simp add: bounce_def power_on_def isButtonPressed_def DEBOUNCE_MS_def)

subsection \<open>C4: the history keeps the latest 50\<close>

text \<open>
  C4.  Start with an empty history (the array has its \<open>MAX_RING_HISTORY\<close> = 50 slots)
  and let \<open>doCapture\<close> run once for each of \<open>N\<close> accepted presses.  Then the entries
  in use are the Events made by the last 50 of these calls, in the order in which they
  were made (all of them while \<open>N \<le> 50\<close>), and their number is \<open>min N 50\<close>: for
  \<open>N > 50\<close> exactly the 50 most recent, the oldest dropped first, and never more than
  50.
\<close>

theorem history_keeps_latest:
  assumes "captures cs w = Some w'" "length (ringHistory w) = MAX_RING_HISTORY"
    "ringHistoryCount w = 0"
  shows "history w' = drop (length cs - MAX_RING_HISTORY) (created cs w)
         \<and> length (history w') = min (length cs) MAX_RING_HISTORY
         \<and> length (created cs w) = length cs"
proof -
  have "ringHistoryCount w \<le> MAX_RING_HISTORY" using assms(3) by simp
  note inv = captures_history [OF assms(1,2) this]
  have "history w = []" using assms(3) by (simp add: history_def)
  with inv assms(3)
  have a: "history w' = drop (length cs - MAX_RING_HISTORY) (created cs w)"
    and b: "ringHistoryCount w' = min (length cs) MAX_RING_HISTORY"
    and c: "length (ringHistory w') = MAX_RING_HISTORY"
    by simp_all
  from b c have "length (history w') = min (length cs) MAX_RING_HISTORY"
    by (simp add: history_def)
  with a length_created [OF assms(1)] show ?thesis by simp
qed

text \<open>
  The theorem after 52 captures from the boot state on an empty card: the first two
  Events have been dropped, and the history runs from id 3 to id 52.
\<close>

theorem history_keeps_latest_witness:
  "\<exists>w'. captures (replicate 52 cap0) (setup_sketch boot0 (power_on [])) = Some w'
        \<and> history w' = drop 2 (created (replicate 52 cap0) (setup_sketch boot0 (power_on [])))
        \<and> length (history w') = 50
        \<and> sint (id' (hd (history w'))) = 3 \<and> sint (id' (last (history w'))) = 52"
proof -
  let ?w = "setup_sketch boot0 (power_on [])"
  let ?made = "created (replicate 52 cap0) ?w"
  obtain w' where c: "captures (replicate 52 cap0) ?w = Some w'"
    using captures_returns [of "replicate 52 cap0" ?w] cap0_returns
    by auto
  have rc: "ringCount ?w = 0" by (simp add: boot_fresh dir_names_def)
  from history_keeps_latest [OF c boot_state]
  have h: "history w' = drop 2 ?made" and l: "length (history w') = 50"
    and n: "length ?made = 52"
    by (simp_all add: MAX_RING_HISTORY_def)
  have "sint (ringCount ?w) + int (length (replicate 52 cap0)) < 2 ^ 31" by (simp add: rc)
  from created_ids [OF c this]
  have ids: "map (\<lambda>e. sint (id' e)) ?made = map (\<lambda>k. 1 + int k) [0..<52]"
    by (simp add: rc)
  have nth: "sint (id' (?made ! i)) = 1 + int i" if "i < 52" for i
  proof -
    from ids have "map (\<lambda>e. sint (id' e)) ?made ! i = map (\<lambda>k. 1 + int k) [0..<52] ! i"
      by simp
    with that n show ?thesis by simp
  qed
  have "hd (history w') = ?made ! 2"
    using n by (simp add: h hd_drop_conv_nth)
  moreover have "last (history w') = ?made ! 51"
    using n by (simp add: h last_conv_nth)
  ultimately have "sint (id' (hd (history w'))) = 3 \<and> sint (id' (last (history w'))) = 52"
    using nth [of 2] nth [of 51] by simp
  with c h l show ?thesis by blast
qed

subsection \<open>C5: ids go up by one, and are recovered from the image files\<close>

text \<open>
  C5.  Each call of \<open>doCapture\<close> allocates the successor of the previous id: as long
  as the counter stays below \<open>2 ^ 31\<close>, the ids of the Events made in a run are the
  successive integers after the counter's value at the start, hence strictly
  increasing.  After a restart on a mounted card whose \<open>/doorbell\<close> directory holds
  \<open>ring_0005.jpg\<close> and no image file with a higher number, start-up leaves the counter
  at 5, and the next capture allocates id 6.
\<close>

theorem ids_increase_and_recover:
  "(\<forall>cs w'. captures cs w = Some w' \<and> sint (ringCount w) + int (length cs) < 2 ^ 31
      \<longrightarrow> map (\<lambda>e. sint (id' e)) (created cs w)
            = map (\<lambda>k. sint (ringCount w) + 1 + int k) [0..<length cs]
          \<and> ringCount w' = ringCount w + word_of_nat (length cs))
   \<and> (sd_begin (sd b) \<and> dir_open (sd b) \<and> ''ring_0005.jpg'' \<in> set (dir_names files)
       \<and> (\<forall>name\<in>set (dir_names files). startsWith name ''ring_'' \<and> endsWith name ''.jpg''
              \<longrightarrow> sint (toInt (substring name 5 9)) \<le> 5)
      \<longrightarrow> ringCount (setup_sketch b (power_on files)) = 5
          \<and> (\<forall>c w1. doCapture c (setup_sketch b (power_on files)) = Some w1
                \<longrightarrow> ringCount w1 = 6 \<and> map id' (history w1) = [6]))"
proof (intro conjI allI impI)
  fix cs w'
  assume a: "captures cs w = Some w' \<and> sint (ringCount w) + int (length cs) < 2 ^ 31"
  then show "map (\<lambda>e. sint (id' e)) (created cs w)
            = map (\<lambda>k. sint (ringCount w) + 1 + int k) [0..<length cs]"
    using created_ids by blast
  from a have "captures cs w = Some w'" by simp
  then show "ringCount w' = ringCount w + word_of_nat (length cs)"
  proof (induction cs arbitrary: w)
    case Nil
    then show ?case by simp
  next
    case (Cons c cs)
    from Cons.prems obtain w1 where d: "doCapture c w = Some w1" and r: "captures cs w1 = Some w'"
      by (auto split: option.splits)
    from Cons.IH [OF r] doCapture_history(1) [OF d] show ?case by simp
  qed
next
  assume h: "sd_begin (sd b) \<and> dir_open (sd b) \<and> ''ring_0005.jpg'' \<in> set (dir_names files)
       \<and> (\<forall>name\<in>set (dir_names files). startsWith name ''ring_'' \<and> endsWith name ''.jpg''
              \<longrightarrow> sint (toInt (substring name 5 9)) \<le> 5)"
  then have f: "fold scan_entry (dir_names files) 0 = 5"
    using recover_5 [of "dir_names files"] by blast
  with h show rc: "ringCount (setup_sketch b (power_on files)) = 5"
    by (simp add: setup_sketch_def power_on_def initSD_def initBLE_def Let_def)
  fix c w1
  assume d: "doCapture c (setup_sketch b (power_on files)) = Some w1"
  from doCapture_history(1) [OF d] rc show "ringCount w1 = 6" by simp
  have lt: "ringHistoryCount (setup_sketch b (power_on files)) \<le> MAX_RING_HISTORY"
    by (simp add: boot_state)
  from doCapture_step(1) [OF d boot_state(1) lt]
  have "history w1 = [new_event c (setup_sketch b (power_on files))]"
    by (simp add: boot_state history_def MAX_RING_HISTORY_def)
  then show "map id' (history w1) = [6]"
    using rc by (simp add: new_event_def)
qed

text \<open>
  The theorem on a card that holds rings 4 and 5: the counter is recovered as 5, the
  next id is 6, and two captures in a row get ids 6 and 7.
\<close>

theorem ids_increase_and_recover_witness:
  "ringCount (setup_sketch boot0 (power_on card5)) = 5
   \<and> (\<exists>w1. doCapture cap0 (setup_sketch boot0 (power_on card5)) = Some w1
          \<and> ringCount w1 = 6 \<and> map id' (history w1) = [6])
   \<and> map (\<lambda>e. sint (id' e)) (created [cap0, cap0] (setup_sketch boot0 (power_on card5)))
       = [6, 7]"
proof -
  let ?w = "setup_sketch boot0 (power_on card5)"
  note inst = ids_increase_and_recover [of ?w boot0 card5]
  have pre: "sd_begin (sd boot0) \<and> dir_open (sd boot0) \<and> ''ring_0005.jpg'' \<in> set (dir_names card5)
       \<and> (\<forall>name\<in>set (dir_names card5). startsWith name ''ring_'' \<and> endsWith name ''.jpg''
              \<longrightarrow> sint (toInt (substring name 5 9)) \<le> 5)"
    using card5_names by (simp add: boot0_def)
  with inst have rc: "ringCount ?w = 5"
    and nxt: "\<forall>c w1. doCapture c ?w = Some w1 \<longrightarrow> ringCount w1 = 6 \<and> map id' (history w1) = [6]"
    by blast+
  obtain w1 where d: "doCapture cap0 ?w = Some w1"
    using doCapture_returns [OF cap0_returns] by blast
  obtain w' where c: "captures [cap0, cap0] ?w = Some w'"
    using captures_returns [of "[cap0, cap0]" ?w] cap0_returns by auto
  have "sint (ringCount ?w) + int (length [cap0, cap0]) < 2 ^ 31"
    using rc by simp
  with inst c have "map (\<lambda>e. sint (id' e)) (created [cap0, cap0] ?w)
            = map (\<lambda>k. sint (ringCount ?w) + 1 + int k) [0..<length [cap0, cap0]]"
    by blast
  then have "map (\<lambda>e. sint (id' e)) (created [cap0, cap0] ?w) = [6, 7]"
    using rc by (simp add: upt_rec)
  with rc nxt d show ?thesis by blast
qed

subsection \<open>C6: a capture without an image\<close>

text \<open>
  C6, amended.  A \<open>RingEvent\<close> has an id, a time and one file name, that of the image;
  it has no reference to the audio clip, which is found on the card under the name
  made from the id.  If the camera delivers no frame and the recording succeeds
  (the card is available, the audio file opens, the sampling loop ends), the capture
  round still appends an Event, whose file name is empty; the clip is stored as
  \<open>ring_NNNN.raw\<close> and no other file is touched; the controller goes on to
  \<open>STATE_NOTIFYING\<close> and, in the next round, to \<open>STATE_COOLDOWN\<close>, the history staying
  as the capture left it.  (The rounds return whenever the web server is not streaming.)
\<close>

theorem capture_without_image:
  assumes "currentState w = STATE_CAPTURING"
    and "fb (photo (cap t)) = None"
    and "sdAvailable w" "raw_open (audio (cap t))"
    and "sample_loop (t_start (audio (cap t))) (rounds (audio (cap t))) [] = Some clip"
    and "length (ringHistory w) = MAX_RING_HISTORY" "ringHistoryCount w \<le> MAX_RING_HISTORY"
    and "request (web t) \<noteq> Some GET_stream" "request (web t') \<noteq> Some GET_stream"
  shows "\<exists>w1 w2. loop t w = Some w1 \<and> loop t' w1 = Some w2
     \<and> currentState w1 = STATE_NOTIFYING \<and> currentState w2 = STATE_COOLDOWN
     \<and> history w1 = drop (ringHistoryCount w + 1 - MAX_RING_HISTORY)
                       (history w @ [\<lparr>id' = ringCount w + 1, timestamp = t_hist (cap t),
                                      filename = []\<rparr>])
     \<and> history w2 = history w1
     \<and> sd_files w1 = put_file (audio_name (ringCount w + 1)) clip (sd_files w)"
proof -
  from assms(5) have ret: "currentState w = STATE_CAPTURING
     \<longrightarrow> sample_loop (t_start (audio (cap t))) (rounds (audio (cap t))) [] \<noteq> None"
    by simp
  from loop_returns [OF assms(8) ret] obtain w1 where l1: "loop t w = Some w1" by blast
  note eff = loop_capturing_effects [OF assms(1) l1]
  from eff(1) assms(2-5)
  have f1: "sd_files w1 = put_file (audio_name (ringCount w + 1)) clip (sd_files w)"
    by (simp add: files_after_capture_def)
  from eff(4) [OF assms(6,7)] assms(2)
  have h1: "history w1 = drop (ringHistoryCount w + 1 - MAX_RING_HISTORY)
                       (history w @ [\<lparr>id' = ringCount w + 1, timestamp = t_hist (cap t),
                                      filename = []\<rparr>])"
    by (simp add: new_event_eq)
  from loop_capturing [OF assms(1) l1] have s1: "currentState w1 = STATE_NOTIFYING" by simp
  then have "currentState w1 = STATE_CAPTURING
     \<longrightarrow> sample_loop (t_start (audio (cap t'))) (rounds (audio (cap t'))) [] \<noteq> None"
    by simp
  from loop_returns [OF assms(9) this] obtain w2 where l2: "loop t' w1 = Some w2" by blast
  from loop_notifying [OF s1 l2] have s2: "currentState w2 = STATE_COOLDOWN"
    and h2: "history w2 = history w1"
    by (simp_all add: history_def)
  from l1 l2 s1 s2 h1 h2 f1 show ?thesis by blast
qed

text \<open>
  The theorem on the first ring of a freshly started device, the camera delivering no
  frame: Event 1 is appended with an empty file name, the card holds the clip and
  nothing else, and the round at 12020 ms reaches the cooldown.
\<close>

theorem capture_without_image_witness:
  "\<exists>w1 w2. loop blind_round ringing = Some w1
     \<and> loop (round_at True 12020 12020) w1 = Some w2
     \<and> currentState w2 = STATE_COOLDOWN
     \<and> history w1 = [\<lparr>id' = 1, timestamp = 12010, filename = []\<rparr>]
     \<and> history w2 = history w1
     \<and> sd_files w1 = [(''/doorbell/ring_0001.raw'', ''pcm'')]"
proof -
  have le: "ringHistoryCount ringing \<le> MAX_RING_HISTORY" by (simp add: ringing_simps)
  have r1: "request (web blind_round) \<noteq> Some GET_stream" by (simp add: sample_rounds)
  have r2: "request (web (round_at True 12020 12020)) \<noteq> Some GET_stream"
    by (simp add: round_at_simps)
  from capture_without_image [OF ringing_simps(1) sample_rounds(2) ringing_simps(2)
    sample_rounds(3) sample_rounds(5) ringing_simps(5) le r1 r2]
  show ?thesis
    by (auto simp: ringing_simps sample_rounds names_1 MAX_RING_HISTORY_def)
qed

text \<open>
  C6 as stated fails: the Event has no audio reference to be non-empty.  In the same
  round the clip is on the card, and the Event appended consists of the id, the time and
  an empty file name.
\<close>

theorem event_without_audio_reference:
  "\<exists>w1. loop blind_round ringing = Some w1
     \<and> sd_exists ''/doorbell/ring_0001.raw'' (sd_files w1)
     \<and> history w1 = [\<lparr>id' = 1, timestamp = 12010, filename = []\<rparr>]"
proof -
  have "currentState ringing = STATE_CAPTURING
     \<longrightarrow> sample_loop (t_start (audio (cap blind_round))) (rounds (audio (cap blind_round))) []
          \<noteq> None"
    by (simp add: sample_rounds)
  with loop_returns [of blind_round ringing]
  obtain w1 where l1: "loop blind_round ringing = Some w1"
    by (auto simp: sample_rounds)
  note eff = loop_capturing_effects [OF ringing_simps(1) l1]
  have le: "ringHistoryCount ringing \<le> MAX_RING_HISTORY" by (simp add: ringing_simps)
  from eff(1) have "sd_files w1 = [(''/doorbell/ring_0001.raw'', ''pcm'')]"
    by (simp add: files_after_capture_def ringing_simps sample_rounds names_1)
  then have "sd_exists ''/doorbell/ring_0001.raw'' (sd_files w1)"
    by (simp add: sd_exists_def)
  moreover from eff(4) [OF ringing_simps(5) le]
  have "history w1 = [\<lparr>id' = 1, timestamp = 12010, filename = []\<rparr>]"
    by (simp add: new_event_eq ringing_simps sample_rounds MAX_RING_HISTORY_def)
  ultimately show ?thesis using l1 by blast
qed

subsection \<open>C7: the image reference and the image file\<close>

text \<open>
  C7 asks for a non-empty image reference exactly when the image was written to the
  card.  \<open>capturePhoto\<close> returns the file name whenever the camera delivered a frame:
  also when the file could not be opened, where it reports the failure and goes on to
  return the name.  On the first ring of a freshly started device with the card mounted
  and the image file failing to open, the name returned is \<open>/doorbell/ring_0001.jpg\<close>
  and the card is as before; the Event appended refers to that file, and the card
  holds the audio clip only.
\<close>

theorem image_reference_without_file:
  "fst (capturePhoto \<lparr>fb = Some ''jpeg'', jpg_open = False\<rparr> 1 ringing)
     = ''/doorbell/ring_0001.jpg''
   \<and> sdAvailable ringing
   \<and> sd_files (snd (capturePhoto \<lparr>fb = Some ''jpeg'', jpg_open = False\<rparr> 1 ringing))
       = sd_files ringing
   \<and> (\<exists>w1. loop unwritten_round ringing = Some w1
          \<and> history w1 = [\<lparr>id' = 1, timestamp = 12010,
                             filename = ''/doorbell/ring_0001.jpg''\<rparr>]
          \<and> sd_files w1 = [(''/doorbell/ring_0001.raw'', ''pcm'')]
          \<and> \<not> sd_exists ''/doorbell/ring_0001.jpg'' (sd_files w1))"
proof -
  have a: "fst (capturePhoto \<lparr>fb = Some ''jpeg'', jpg_open = False\<rparr> 1 ringing)
     = ''/doorbell/ring_0001.jpg''"
    by (simp add: capturePhoto_def Let_def names_1)
  have b: "sd_files (snd (capturePhoto \<lparr>fb = Some ''jpeg'', jpg_open = False\<rparr> 1 ringing))
       = sd_files ringing"
    by (simp add: capturePhoto_def Let_def)
  have "currentState ringing = STATE_CAPTURING
     \<longrightarrow> sample_loop (t_start (audio (cap unwritten_round)))
           (rounds (audio (cap unwritten_round))) [] \<noteq> None"
    by (simp add: sample_rounds)
  with loop_returns [of unwritten_round ringing]
  obtain w1 where l1: "loop unwritten_round ringing = Some w1"
    by (auto simp: sample_rounds)
  note eff = loop_capturing_effects [OF ringing_simps(1) l1]
  have le: "ringHistoryCount ringing \<le> MAX_RING_HISTORY" by (simp add: ringing_simps)
  from eff(1) have f: "sd_files w1 = [(''/doorbell/ring_0001.raw'', ''pcm'')]"
    by (simp add: files_after_capture_def ringing_simps sample_rounds names_1)
  then have n: "\<not> sd_exists ''/doorbell/ring_0001.jpg'' (sd_files w1)"
    by (simp add: sd_exists_def)
  from eff(4) [OF ringing_simps(5) le]
  have "history w1 = [\<lparr>id' = 1, timestamp = 12010, filename = ''/doorbell/ring_0001.jpg''\<rparr>]"
    by (simp add: new_event_eq ringing_simps sample_rounds names_1 MAX_RING_HISTORY_def)
  with a b l1 f n ringing_simps(2) show ?thesis by blast
qed

subsection \<open>C8: notifying with and without a subscriber\<close>




subsection \<open>C9: the request handlers\<close>

lemma stream_loop_taken:
  "stream_loop fs w = Some w' \<Longrightarrow> fb_taken w \<le> fb_taken w' \<and> fb_held w' = fb_held w"
proof (induction fs arbitrary: w)
  case Nil
  then show ?case by simp
next
  case (Cons x fs)
  obtain connected f where x: "x = (connected, f)" by (cases x)
  show ?case
  proof (cases "connected \<and> f \<noteq> None")
    case False
    with Cons.prems x show ?thesis by (auto split: option.splits)
  next
    case True
    then obtain buf where f: "f = Some buf" by auto
    from Cons.prems x True f obtain v where v: "stream_loop fs v = Some w'"
      and t: "fb_taken v = fb_taken w + 1" and h: "fb_held v = fb_held w"
      by (simp add: Let_def)
    from Cons.IH [OF v] t h show ?thesis by simp
  qed
qed

lemma handleClient_taken:
  assumes "handleClient i w = Some w'"
  shows "fb_taken w \<le> fb_taken w'" "fb_held w' = fb_held w"
    "request i \<noteq> Some GET_stream \<Longrightarrow> fb_taken w' = fb_taken w"
proof -
  have "fb_taken w \<le> fb_taken w' \<and> fb_held w' = fb_held w
        \<and> (request i \<noteq> Some GET_stream \<longrightarrow> fb_taken w' = fb_taken w)"
  proof (cases "request i")
    case None
    with assms show ?thesis by (simp add: handleClient_def)
  next
    case (Some r)
    show ?thesis
    proof (cases r)
      case GET_root
      with assms Some show ?thesis by (auto simp: handleClient_def handleRoot_def Let_def)
    next
      case (GET_photo arg)
      with assms Some show ?thesis
        by (auto simp: handleClient_def handlePhoto_def Let_def split: option.splits if_splits)
    next
      case GET_stream
      with assms Some obtain v where "stream_loop (frames i) v = Some w'"
        and "fb_taken v = fb_taken w" "fb_held v = fb_held w"
        by (simp add: handleClient_def handleStream_def Let_def)
      with stream_loop_taken [of "frames i" v w'] Some GET_stream show ?thesis by simp
    next
      case GET_status
      with assms Some show ?thesis by (auto simp: handleClient_def handleStatus_def Let_def)
    next
      case GET_other
      with assms Some show ?thesis by (simp add: handleClient_def)
    qed
  qed
  then show "fb_taken w \<le> fb_taken w'" "fb_held w' = fb_held w"
    "request i \<noteq> Some GET_stream \<Longrightarrow> fb_taken w' = fb_taken w"
    by simp_all
qed

text \<open>
  C9.  Whatever request \<open>handleClient\<close> serves, when the handler returns the state is
  the one before except for what was sent to the client and for the count of frames
  taken from the camera: controller state, state-entry time, counter, history array and
  history count are the same, and so is every other variable, the card and the BLE
  side.  Only the stream handler takes frames, and each frame it takes it has given
  back when it returns (the number of frames held is as before).  The dashboard, photo
  and status handlers always return.
\<close>

theorem handlers_are_read_only:
  "(request i \<noteq> Some GET_stream
      \<longrightarrow> (\<exists>w'. handleClient i w = Some w' \<and> fb_taken w' = fb_taken w))
   \<and> (\<forall>w'. handleClient i w = Some w'
        \<longrightarrow> w' = w\<lparr>sent := sent w', fb_taken := fb_taken w'\<rparr>
          \<and> currentState w' = currentState w \<and> stateEnteredAt w' = stateEnteredAt w
          \<and> ringCount w' = ringCount w
          \<and> ringHistory w' = ringHistory w \<and> ringHistoryCount w' = ringHistoryCount w
          \<and> fb_held w' = fb_held w \<and> fb_taken w \<le> fb_taken w')"
proof (intro conjI allI impI)
  assume r: "request i \<noteq> Some GET_stream"
  from handleClient_returns [OF r] obtain w' where h: "handleClient i w = Some w'" by blast
  with handleClient_taken(3) [OF h r] show "\<exists>w'. handleClient i w = Some w' \<and> fb_taken w' = fb_taken w"
    by blast
next
  fix w'
  assume h: "handleClient i w = Some w'"
  from handleClient_frame [OF h] show fr: "w' = w\<lparr>sent := sent w', fb_taken := fb_taken w'\<rparr>" .
  then obtain s k where w': "w' = w\<lparr>sent := s, fb_taken := k\<rparr>" by blast
  then show "currentState w' = currentState w" "stateEnteredAt w' = stateEnteredAt w"
    "ringCount w' = ringCount w" "ringHistory w' = ringHistory w"
    "ringHistoryCount w' = ringHistoryCount w"
    by simp_all
  from handleClient_taken(1,2) [OF h] show "fb_held w' = fb_held w" "fb_taken w \<le> fb_taken w'"
    by simp_all
qed

text \<open>
  The theorem during the capture state of the first ring: a status request and a stream
  of two frames both leave the controller in \<open>STATE_CAPTURING\<close> with counter 0; the
  stream has taken two frames and holds none.
\<close>

theorem handlers_are_read_only_witness:
  "(\<exists>w'. handleClient status_request ringing = Some w'
         \<and> currentState w' = STATE_CAPTURING \<and> ringCount w' = 0 \<and> fb_taken w' = 0)
   \<and> (\<exists>w'. handleClient stream_request ringing = Some w'
         \<and> currentState w' = STATE_CAPTURING \<and> ringCount w' = 0
         \<and> fb_taken w' = 2 \<and> fb_held w' = 0)"
proof -
  have "request status_request \<noteq> Some GET_stream" by (simp add: status_request_def)
  with handlers_are_read_only [of status_request ringing]
  obtain w' where h: "handleClient status_request ringing = Some w'"
    and k: "fb_taken w' = fb_taken ringing"
    by blast
  from handlers_are_read_only [of status_request ringing] h
  have "currentState w' = currentState ringing" "ringCount w' = ringCount ringing"
    by blast+
  with h k have one: "\<exists>w'. handleClient status_request ringing = Some w'
         \<and> currentState w' = STATE_CAPTURING \<and> ringCount w' = 0 \<and> fb_taken w' = 0"
    by (auto simp: ringing_simps)
  have "\<exists>v'. handleClient stream_request ringing = Some v' \<and> fb_taken v' = 2"
    by (simp add: handleClient_def handleStream_def stream_request_def Let_def ringing_simps)
  then obtain v' where h2: "handleClient stream_request ringing = Some v'"
    and k2: "fb_taken v' = 2"
    by blast
  from handlers_are_read_only [of stream_request ringing] h2
  have "currentState v' = currentState ringing" "ringCount v' = ringCount ringing"
    "fb_held v' = fb_held ringing"
    by blast+
  with h2 k2 have "\<exists>w'. handleClient stream_request ringing = Some w'
         \<and> currentState w' = STATE_CAPTURING \<and> ringCount w' = 0
         \<and> fb_taken w' = 2 \<and> fb_held w' = 0"
    by (auto simp: ringing_simps)
  with one show ?thesis by blast
qed

subsection \<open>C10: a ring with audio only is forgotten by a restart\<close>

lemma fold_scan_images_only:
  "fold scan_entry names c
   = fold scan_entry (filter (\<lambda>n. startsWith n ''ring_'' \<and> endsWith n ''.jpg'') names) c"
  by (induction names arbitrary: c) (simp_all add: scan_entry_def)

text \<open>
  C10.  The scan at start-up passes over every name that does not start with \<open>ring_\<close>
  and end with \<open>.jpg\<close>: the counter it recovers is the one it would recover from the
  image files alone.  And there is such an execution.  A freshly started device on an
  empty card takes two rings.  The first is stored with its image: Event 1, and the
  card holds \<open>ring_0001.jpg\<close>, \<open>ring_0001.raw\<close> and the log.  In the second the camera
  delivers no frame: Event 2 has no image, and only \<open>ring_0002.raw\<close> is added.  After a
  restart on that card the counter is recovered as 1: the scan has counted the image
  of the first ring and has not seen the second.  The next ring gets id 2 again, and
  its clip is written to \<open>/doorbell/ring_0002.raw\<close>, which exists: the clip of the
  second ring is replaced.
\<close>

theorem audio_only_ring_is_forgotten:
  "(\<forall>names c. fold scan_entry names c
       = fold scan_entry (filter (\<lambda>n. startsWith n ''ring_'' \<and> endsWith n ''.jpg'') names) c)
   \<and> (\<exists>w v0 v1 v2.
      run [Tick (round_at False 10000 10000), Tick (round_at False 10010 12010),
           Tick (round_at True 12020 12020), Tick (round_at True 15020 15020),
           Tick (round_at True 15030 15030), Tick (round_at False 20000 20000),
           Tick blind_second, Tick (round_at True 22020 22020)]
        (setup_sketch boot0 (power_on [])) = Some w
    \<and> history w = [\<lparr>id' = 1, timestamp = 12010, filename = ''/doorbell/ring_0001.jpg''\<rparr>,
                    \<lparr>id' = 2, timestamp = 22010, filename = []\<rparr>]
    \<and> map fst (sd_files w) = [''/doorbell/ring_0001.jpg'', ''/doorbell/ring_0001.raw'',
                               ''/doorbell/log.csv'', ''/doorbell/ring_0002.raw'']
    \<and> map_of (sd_files w) ''/doorbell/ring_0002.raw'' = Some ''pcm2''
    \<and> v0 = setup_sketch boot0 (power_on (sd_files w))
    \<and> ringCount v0 = 1
    \<and> run [Tick (round_at False 30000 30000)] v0 = Some v1
    \<and> currentState v1 = STATE_CAPTURING
    \<and> sd_exists ''/doorbell/ring_0002.raw'' (sd_files v1)
    \<and> loop third_capture v1 = Some v2
    \<and> history v2 = [\<lparr>id' = 2, timestamp = 32010, filename = ''/doorbell/ring_0002.jpg''\<rparr>]
    \<and> map_of (sd_files v2) ''/doorbell/ring_0002.raw'' = Some ''pcm3'')"
proof -
  let ?w0 = "setup_sketch boot0 (power_on [])"
  let ?ev1 = "\<lparr>id' = 1, timestamp = 12010, filename = ''/doorbell/ring_0001.jpg''\<rparr>"
  let ?ev2 = "\<lparr>id' = 2, timestamp = 22010, filename = []\<rparr>"
  let ?log1 = "''id,timestamp_ms,filename'' @ [CHR 0x0D, CHR 0x0A] @ ''1,12020,ring_0001''
               @ [CHR 0x0A]"
  let ?log2 = "?log1 @ ''2,22020,ring_0002'' @ [CHR 0x0A]"
  let ?card3 = "[(''/doorbell/ring_0001.jpg'', ''jpeg''), (''/doorbell/ring_0001.raw'', ''pcm''),
                 (''/doorbell/log.csv'', ?log1)]"
  let ?card = "[(''/doorbell/ring_0001.jpg'', ''jpeg''), (''/doorbell/ring_0001.raw'', ''pcm''),
                (''/doorbell/log.csv'', ?log2), (''/doorbell/ring_0002.raw'', ''pcm2'')]"
  \<comment> \<open>the first press\<close>
  obtain w1 where l1: "loop (round_at False 10000 10000) ?w0 = Some w1"
    using loop_returns [of "round_at False 10000 10000" ?w0]
    by (auto simp: round_at_simps boot_idle)
  from loop_idle [OF boot_idle(1) l1]
  have s1: "currentState w1 = STATE_CAPTURING" and c1: "ringCount w1 = 0"
    and h1: "length (ringHistory w1) = MAX_RING_HISTORY" "ringHistoryCount w1 = 0"
    and b1: "\<not> lastButtonState w1" "lastButtonPress w1 = 10000"
    by (simp_all add: round_at_simps boot_idle boot_fresh boot_state DEBOUNCE_MS_def
          dir_names_def)
  have q1: "currentState ?w0 = STATE_IDLE \<or> currentState ?w0 = STATE_COOLDOWN"
    by (simp add: boot_idle)
  from loop_quiet [OF q1 l1] have f1: "sd_files w1 = []" and a1: "sdAvailable w1"
    by (simp_all add: boot_fresh)
  \<comment> \<open>the first capture, with its image\<close>
  let ?t2 = "round_at False 10010 12010"
  have au: "sample_loop (t_start (audio (cap ?t2))) (rounds (audio (cap ?t2))) [] = Some ''pcm''"
    by (rule round_at_capture(5)) (simp add: AUDIO_DURATION_MS_def)
  obtain w2 where l2: "loop ?t2 w1 = Some w2"
    using loop_returns [of ?t2 w1] au by (auto simp: round_at_simps)
  from loop_capturing [OF s1 l2] c1 b1
  have s2: "currentState w2 = STATE_NOTIFYING" and c2: "ringCount w2 = 1"
    and b2: "\<not> lastButtonState w2" "lastButtonPress w2 = 10000"
    by simp_all
  note e2 = loop_capturing_effects [OF s1 l2]
  from e2(1) have f2: "sd_files w2 = [(''/doorbell/ring_0001.jpg'', ''jpeg''),
                                      (''/doorbell/ring_0001.raw'', ''pcm'')]"
    by (simp add: files_after_capture_def round_at_capture au f1 a1 c1 names_1)
  from e2(2) a1 have a2: "sdAvailable w2" by simp
  have le1: "ringHistoryCount w1 \<le> MAX_RING_HISTORY" using h1 by simp
  from e2(4) [OF h1(1) le1]
  have hist2: "history w2 = [?ev1]" and h2: "length (ringHistory w2) = MAX_RING_HISTORY"
    by (simp_all add: new_event_eq round_at_capture c1 h1 history_def names_1
          MAX_RING_HISTORY_def)
  from hist2 h2 have k2: "ringHistoryCount w2 = 1"
    by (auto simp: history_def MAX_RING_HISTORY_def dest!: arg_cong [where f = length])
  \<comment> \<open>the first notification\<close>
  let ?t3 = "round_at True 12020 12020"
  obtain w3 where l3: "loop ?t3 w2 = Some w3"
    using loop_returns [of ?t3 w2] s2 by (auto simp: round_at_simps)
  from loop_notifying [OF s2 l3] c2 b2 h2 k2
  have s3: "currentState w3 = STATE_COOLDOWN" and c3: "ringCount w3 = 1"
    and e3: "stateEnteredAt w3 = 12020"
    and b3: "\<not> lastButtonState w3" "lastButtonPress w3 = 10000"
    and h3: "length (ringHistory w3) = MAX_RING_HISTORY" "ringHistoryCount w3 = 1"
    by (simp_all add: round_at_simps)
  from loop_notifying [OF s2 l3] hist2 have hist3: "history w3 = [?ev1]"
    by (simp add: history_def)
  from loop_notifying_effects(1) [OF s2 l3] have f3: "sd_files w3 = ?card3"
    by (simp add: logRingEvent_def round_at_notify a2 f2 c2 sample_texts Let_def)
  from loop_notifying_effects(2) [OF s2 l3] a2 have a3: "sdAvailable w3" by simp
  \<comment> \<open>the cooldown ends\<close>
  let ?t4 = "round_at True 15020 15020"
  obtain w4 where l4: "loop ?t4 w3 = Some w4"
    using loop_returns [of ?t4 w3] s3 by (auto simp: round_at_simps)
  from loop_cooldown [OF s3 l4] c3 b3 h3 e3
  have s4: "currentState w4 = STATE_IDLE" and c4: "ringCount w4 = 1"
    and b4: "\<not> lastButtonState w4" "lastButtonPress w4 = 10000"
    and h4: "length (ringHistory w4) = MAX_RING_HISTORY" "ringHistoryCount w4 = 1"
    by (simp_all add: round_at_simps COOLDOWN_MS_def)
  from loop_cooldown [OF s3 l4] hist3 have hist4: "history w4 = [?ev1]"
    by (simp add: history_def)
  have q3: "currentState w3 = STATE_IDLE \<or> currentState w3 = STATE_COOLDOWN"
    using s3 by simp
  from loop_quiet [OF q3 l4] f3 a3 have f4: "sd_files w4 = ?card3" and a4: "sdAvailable w4"
    by simp_all
  \<comment> \<open>the released button is seen\<close>
  let ?t5 = "round_at True 15030 15030"
  obtain w5 where l5: "loop ?t5 w4 = Some w5"
    using loop_returns [of ?t5 w4] s4 by (auto simp: round_at_simps)
  from loop_idle [OF s4 l5] c4 b4 h4
  have s5: "currentState w5 = STATE_IDLE" and c5: "ringCount w5 = 1"
    and b5: "lastButtonState w5" "lastButtonPress w5 = 10000"
    and h5: "length (ringHistory w5) = MAX_RING_HISTORY" "ringHistoryCount w5 = 1"
    by (simp_all add: round_at_simps)
  from loop_idle [OF s4 l5] hist4 have hist5: "history w5 = [?ev1]"
    by (simp add: history_def)
  have q4: "currentState w4 = STATE_IDLE \<or> currentState w4 = STATE_COOLDOWN"
    using s4 by simp
  from loop_quiet [OF q4 l5] f4 a4 have f5: "sd_files w5 = ?card3" and a5: "sdAvailable w5"
    by simp_all
  \<comment> \<open>the second press\<close>
  let ?t6 = "round_at False 20000 20000"
  obtain w6 where l6: "loop ?t6 w5 = Some w6"
    using loop_returns [of ?t6 w5] s5 by (auto simp: round_at_simps)
  from loop_idle [OF s5 l6] c5 b5 h5
  have s6: "currentState w6 = STATE_CAPTURING" and c6: "ringCount w6 = 1"
    and h6: "length (ringHistory w6) = MAX_RING_HISTORY" "ringHistoryCount w6 = 1"
    by (simp_all add: round_at_simps DEBOUNCE_MS_def)
  from loop_idle [OF s5 l6] hist5 have hist6: "history w6 = [?ev1]"
    by (simp add: history_def)
  have q5: "currentState w5 = STATE_IDLE \<or> currentState w5 = STATE_COOLDOWN"
    using s5 by simp
  from loop_quiet [OF q5 l6] f5 a5 have f6: "sd_files w6 = ?card3" and a6: "sdAvailable w6"
    by simp_all
  \<comment> \<open>the second capture, without a frame\<close>
  obtain w7 where l7: "loop blind_second w6 = Some w7"
    using loop_returns [of blind_second w6] by (auto simp: sample_rounds)
  from loop_capturing [OF s6 l7] c6
  have s7: "currentState w7 = STATE_NOTIFYING" and c7: "ringCount w7 = 2"
    by simp_all
  note e7 = loop_capturing_effects [OF s6 l7]
  from e7(1) have f7: "sd_files w7 = ?card3 @ [(''/doorbell/ring_0002.raw'', ''pcm2'')]"
    by (simp add: files_after_capture_def sample_rounds f6 a6 c6 names_2)
  from e7(2) a6 have a7: "sdAvailable w7" by simp
  have le6: "ringHistoryCount w6 \<le> MAX_RING_HISTORY" using h6 by (simp add: MAX_RING_HISTORY_def)
  from e7(4) [OF h6(1) le6]
  have hist7: "history w7 = [?ev1, ?ev2]"
    by (simp add: new_event_eq sample_rounds c6 h6 hist6 MAX_RING_HISTORY_def)
  \<comment> \<open>the second notification\<close>
  let ?t8 = "round_at True 22020 22020"
  obtain w8 where l8: "loop ?t8 w7 = Some w8"
    using loop_returns [of ?t8 w7] s7 by (auto simp: round_at_simps)
  from loop_notifying [OF s7 l8] hist7 have hist8: "history w8 = [?ev1, ?ev2]"
    by (simp add: history_def)
  from loop_notifying_effects(1) [OF s7 l8] have f8: "sd_files w8 = ?card"
    by (simp add: logRingEvent_def round_at_notify a7 f7 c7 sample_texts Let_def)
  have r8: "run [Tick (round_at False 10000 10000), Tick ?t2, Tick ?t3, Tick ?t4, Tick ?t5,
                 Tick ?t6, Tick blind_second, Tick ?t8] ?w0 = Some w8"
    using l1 l2 l3 l4 l5 l6 l7 l8 by (simp add: step_def)
  \<comment> \<open>the restart\<close>
  let ?v0 = "setup_sketch boot0 (power_on (sd_files w8))"
  have scan: "fold scan_entry (dir_names ?card) 0 = 1"
    by code_simp
  have c0: "ringCount ?v0 = 1"
    using scan by (simp add: boot_fresh f8)
  \<comment> \<open>the next press\<close>
  obtain v1 where m1: "loop (round_at False 30000 30000) ?v0 = Some v1"
    using loop_returns [of "round_at False 30000 30000" ?v0]
    by (auto simp: round_at_simps boot_idle)
  from loop_idle [OF boot_idle(1) m1] c0
  have t1: "currentState v1 = STATE_CAPTURING" and d1: "ringCount v1 = 1"
    and g1: "length (ringHistory v1) = MAX_RING_HISTORY" "ringHistoryCount v1 = 0"
    by (simp_all add: round_at_simps boot_idle boot_state DEBOUNCE_MS_def)
  have p1: "currentState ?v0 = STATE_IDLE \<or> currentState ?v0 = STATE_COOLDOWN"
    by (simp add: boot_idle)
  from loop_quiet [OF p1 m1] have k1: "sd_files v1 = ?card" and x1: "sdAvailable v1"
    by (simp_all add: boot_fresh f8)
  from k1 have ex1: "sd_exists ''/doorbell/ring_0002.raw'' (sd_files v1)"
    by (simp add: sd_exists_def)
  \<comment> \<open>the next capture\<close>
  obtain v2 where m2: "loop third_capture v1 = Some v2"
    using loop_returns [of third_capture v1] by (auto simp: sample_rounds)
  note e = loop_capturing_effects [OF t1 m2]
  from e(1) have "sd_files v2 = put_file ''/doorbell/ring_0002.raw'' ''pcm3''
                                  (put_file ''/doorbell/ring_0002.jpg'' ''jpeg3'' (sd_files v1))"
    by (simp add: files_after_capture_def sample_rounds x1 d1 names_2)
  then have new: "map_of (sd_files v2) ''/doorbell/ring_0002.raw'' = Some ''pcm3''"
    by (simp add: map_of_put_file)
  have le2: "ringHistoryCount v1 \<le> MAX_RING_HISTORY" using g1 by simp
  from e(4) [OF g1(1) le2]
  have hist: "history v2 = [\<lparr>id' = 2, timestamp = 32010,
                             filename = ''/doorbell/ring_0002.jpg''\<rparr>]"
    by (simp add: new_event_eq sample_rounds d1 g1 history_def names_2 MAX_RING_HISTORY_def)
  have r1: "run [Tick (round_at False 30000 30000)] ?v0 = Some v1"
    using m1 by (simp add: step_def)
  have names: "map fst (sd_files w8) = [''/doorbell/ring_0001.jpg'', ''/doorbell/ring_0001.raw'',
                                        ''/doorbell/log.csv'', ''/doorbell/ring_0002.raw'']"
    and old: "map_of (sd_files w8) ''/doorbell/ring_0002.raw'' = Some ''pcm2''"
    by (simp_all add: f8)
  have "\<exists>w v0 v1 v2.
      run [Tick (round_at False 10000 10000), Tick (round_at False 10010 12010),
           Tick (round_at True 12020 12020), Tick (round_at True 15020 15020),
           Tick (round_at True 15030 15030), Tick (round_at False 20000 20000),
           Tick blind_second, Tick (round_at True 22020 22020)]
        (setup_sketch boot0 (power_on [])) = Some w
    \<and> history w = [\<lparr>id' = 1, timestamp = 12010, filename = ''/doorbell/ring_0001.jpg''\<rparr>,
                    \<lparr>id' = 2, timestamp = 22010, filename = []\<rparr>]
    \<and> map fst (sd_files w) = [''/doorbell/ring_0001.jpg'', ''/doorbell/ring_0001.raw'',
                               ''/doorbell/log.csv'', ''/doorbell/ring_0002.raw'']
    \<and> map_of (sd_files w) ''/doorbell/ring_0002.raw'' = Some ''pcm2''
    \<and> v0 = setup_sketch boot0 (power_on (sd_files w))
    \<and> ringCount v0 = 1
    \<and> run [Tick (round_at False 30000 30000)] v0 = Some v1
    \<and> currentState v1 = STATE_CAPTURING
    \<and> sd_exists ''/doorbell/ring_0002.raw'' (sd_files v1)
    \<and> loop third_capture v1 = Some v2
    \<and> history v2 = [\<lparr>id' = 2, timestamp = 32010, filename = ''/doorbell/ring_0002.jpg''\<rparr>]
    \<and> map_of (sd_files v2) ''/doorbell/ring_0002.raw'' = Some ''pcm3''"
    apply (rule exI [of _ w8])
    apply (rule exI [of _ "setup_sketch boot0 (power_on (sd_files w8))"])
    apply (rule exI [of _ v1])
    apply (rule exI [of _ v2])
    using r8 hist8 names old c0 r1 t1 ex1 m2 hist new
    apply (intro conjI)
    apply (assumption | rule refl)+
    done
  with fold_scan_images_only show ?thesis by blast
qed

end
